theory Spec2Isabelle
  imports Main "HOL-Library.Sublist"
begin

section \<open>Data of \<^verbatim>\<open>FileHandler.ts\<close>\<close>

text \<open>
  The three public methods of the class. Each builds one closure and hands it to
  \<^verbatim>\<open>addTaskToQueue\<close>; the closure captures the method's arguments, so a queued task
  is modelled by the method and the arguments it was called with (\<open>WriteFile\<close> and
  \<open>AppendToFile\<close> carry the content).

  A user continuation (\<^verbatim>\<open>onSuccessCallback\<close>, \<^verbatim>\<open>onErrorCallback\<close>) is opaque to the
  class. It is modelled by a label, under which its invocation is recorded, and by the
  calls it makes back into the handler when it runs (continuations may submit further
  work). Continuations are assumed to return normally.
\<close>

datatype operation = ReadFile | WriteFile string | AppendToFile string

datatype task =
  Task (kind: operation) (name: string)
       (onSuccessCallback: "callback option") (onErrorCallback: "callback option")
and callback =
  Callback (label: nat) (submits: "task list")

datatype domError = NotFoundError | OtherError string

text \<open>
  What a continuation is called with. \<open>NoResult\<close> is the \<^verbatim>\<open>null\<close> that a reader
  holds as its result when the read has failed.
\<close>

datatype argument = NoArgument | FileText string | NoResult | ErrorObject domError

text \<open>The exception of JavaScript when \<^verbatim>\<open>undefined\<close> is called or dereferenced.\<close>

datatype fault = TypeError

datatype handle = DOMFileSystem

text \<open>
  The functions that the task bodies store in the slots \<^verbatim>\<open>onwriteend\<close> and
  \<^verbatim>\<open>onerror\<close> of a file writer: \<open>OverwriteEnd\<close> is lines 80-86, \<open>AppendEnd\<close> lines
  120-124, \<open>ErrorThenNext\<close> lines 88-91 and 126-129, and \<open>Plain\<close> is a user
  continuation stored in the slot as it is (lines 93 and 131).
\<close>

datatype handler = OverwriteEnd task | AppendEnd task | ErrorThenNext task | Plain callback

record fileWriter =
  target :: string
  position :: nat
  onwriteend :: "handler option"
  onerror :: "handler option"

text \<open>
  Modelled from the spec: the Resource Backend (the browser's file system interface) is
  not part of the repository. Following section 4.3 of the specification, every request
  made to it is outstanding until it completes, exactly once, with success or with an
  error. The requests are those the code makes: \<^verbatim>\<open>requestFileSystem\<close>,
  \<^verbatim>\<open>getFile\<close>, \<^verbatim>\<open>fileEntry.file\<close>, \<^verbatim>\<open>readAsText\<close>, \<^verbatim>\<open>createWriter\<close> and
  \<^verbatim>\<open>fileWriter.write\<close>. A completion is delivered the way the browser's interface
  delivers it: to the success or the error function passed with the request, if one was
  passed; for a write, to the slot \<^verbatim>\<open>onwriteend\<close> when it succeeded and to the slot
  \<^verbatim>\<open>onerror\<close> and then the slot \<^verbatim>\<open>onwriteend\<close> when it failed; for a reader, to
  \<^verbatim>\<open>onloadend\<close> in both cases.
\<close>

datatype request =
    RequestFileSystem
  | GetFile task
  | FileOf task
  | ReadAsText task
  | CreateWriter task
  | WriteBlob fileWriter string

datatype outcome = Succeed | Fail domError

text \<open>
  Modelled from the spec: \<^verbatim>\<open>BehaviorSubject\<close> is imported from rxjs. The subject
  holds the latest value; \<^verbatim>\<open>next\<close> stores a value and notifies the subscriber. Whether
  a value equal to the stored one is notified again is a parameter of the model,
  \<open>emitsEqual\<close>: section 4.1 of the specification describes a subject that notifies on
  change only (\<open>emitsEqual = False\<close>).
\<close>

record subject =
  latest :: bool
  emitsEqual :: bool

text \<open>What an observer of the handler can see, in the order it happens.\<close>

datatype obs =
    Submitted task
  | Dequeued task
  | Next bool
  | Notified bool
  | Begin task
  | Invoked nat argument

text \<open>
  The fields of the class (\<open>fs\<close> is \<open>None\<close> while \<^verbatim>\<open>this.fs\<close> is undefined), the
  backend's outstanding requests and files, and the history of observations.
\<close>

record state =
  fs :: "handle option"
  tasksProcessSubject :: subject
  tasksQueue :: "task list"
  pending :: "request list"
  files :: "string \<rightharpoonup> string"
  trace :: "obs list"

section \<open>The scheduler\<close>

text \<open>
  A function of the handler returns the new state, or the fault it threw. \<open>andThen\<close>
  sequences two of them: a fault ends the sequence, as an exception does.
\<close>

definition andThen :: "fault + 'a \<Rightarrow> ('a \<Rightarrow> fault + 'b) \<Rightarrow> fault + 'b" where
  "andThen r f = (case r of Inl e \<Rightarrow> Inl e | Inr s \<Rightarrow> f s)"

definition record_obs :: "obs \<Rightarrow> state \<Rightarrow> state" where
  "record_obs e s = s\<lparr>trace := trace s @ [e]\<rparr>"

definition getValue :: "subject \<Rightarrow> bool" where
  "getValue subj = latest subj"

text \<open>The handler makes a request of the backend, which stays outstanding.\<close>

definition send :: "request \<Rightarrow> state \<Rightarrow> state" where
  "send r s = s\<lparr>pending := pending s @ [r]\<rparr>"

text \<open>
  The body of a queued closure. All three start with \<^verbatim>\<open>this.fs.root.getFile(...)\<close>,
  which throws when \<^verbatim>\<open>this.fs\<close> is still undefined.
\<close>

definition runTask :: "task \<Rightarrow> state \<Rightarrow> fault + state" where
  "runTask callback s =
     (case fs s of
        None \<Rightarrow> Inl TypeError
      | Some h \<Rightarrow> Inr (send (GetFile callback) s))"

text \<open>
  \<open>nextValue\<close> is \<^verbatim>\<open>tasksProcessSubject.next\<close>, \<open>subscriber\<close> the function subscribed
  in the constructor (lines 30-34), \<open>deQueueTask\<close> lines 156-160. \<^verbatim>\<open>shift\<close> on an
  empty array yields \<^verbatim>\<open>undefined\<close>, and calling it throws.
\<close>

function nextValue :: "bool \<Rightarrow> state \<Rightarrow> fault + state"
  and subscriber :: "bool \<Rightarrow> state \<Rightarrow> fault + state"
  and deQueueTask :: "state \<Rightarrow> fault + state"
where
  "nextValue v s =
     (let subj = tasksProcessSubject s;
          s' = record_obs (Next v) (s\<lparr>tasksProcessSubject := subj\<lparr>latest := v\<rparr>\<rparr>)
      in if latest subj \<noteq> v \<or> emitsEqual subj then subscriber v s' else Inr s')"
| "subscriber canPerformNewTask s =
     (let s' = record_obs (Notified canPerformNewTask) s
      in if canPerformNewTask \<and> length (tasksQueue s') > 0 then deQueueTask s' else Inr s')"
| "deQueueTask s =
     (case tasksQueue s of
        [] \<Rightarrow>
          (case nextValue False s of
             Inl e \<Rightarrow> Inl e
           | Inr s' \<Rightarrow> Inl TypeError)
      | callback # rest \<Rightarrow>
          (case nextValue False (record_obs (Dequeued callback) (s\<lparr>tasksQueue := rest\<rparr>)) of
             Inl e \<Rightarrow> Inl e
           | Inr s' \<Rightarrow> runTask callback (record_obs (Begin callback) s')))"
  by pat_completeness auto
termination
  by (relation "measure (\<lambda>x. case x of
         Inl (v, s) \<Rightarrow> if v then 5 else 1
       | Inr (Inl (v, s)) \<Rightarrow> if v then 4 else 0
       | Inr (Inr s) \<Rightarrow> 2)") auto

definition addTaskToQueue :: "task \<Rightarrow> state \<Rightarrow> fault + state" where
  "addTaskToQueue callback s =
     (let s' = record_obs (Submitted callback) (s\<lparr>tasksQueue := tasksQueue s @ [callback]\<rparr>)
      in if length (tasksQueue s') = 1 \<and> getValue (tasksProcessSubject s')
         then deQueueTask s' else Inr s')"

definition readFile ::
  "string \<Rightarrow> callback option \<Rightarrow> callback option \<Rightarrow> state \<Rightarrow> fault + state" where
  "readFile nm onSuccess onError s = addTaskToQueue (Task ReadFile nm onSuccess onError) s"

definition writeFile ::
  "string \<Rightarrow> string \<Rightarrow> callback option \<Rightarrow> callback option \<Rightarrow> state \<Rightarrow> fault + state" where
  "writeFile nm c onSuccess onError s =
     addTaskToQueue (Task (WriteFile c) nm onSuccess onError) s"

definition appendToFile ::
  "string \<Rightarrow> string \<Rightarrow> callback option \<Rightarrow> callback option \<Rightarrow> state \<Rightarrow> fault + state" where
  "appendToFile nm c onSuccess onError s =
     addTaskToQueue (Task (AppendToFile c) nm onSuccess onError) s"

text \<open>A call of a public method, given as the task it would queue.\<close>

definition api :: "task \<Rightarrow> state \<Rightarrow> fault + state" where
  "api t s =
     (case kind t of
        ReadFile \<Rightarrow> readFile (name t) (onSuccessCallback t) (onErrorCallback t) s
      | WriteFile c \<Rightarrow> writeFile (name t) c (onSuccessCallback t) (onErrorCallback t) s
      | AppendToFile c \<Rightarrow>
          appendToFile (name t) c (onSuccessCallback t) (onErrorCallback t) s)"

fun api_all :: "task list \<Rightarrow> state \<Rightarrow> fault + state" where
  "api_all [] s = Inr s"
| "api_all (t # ts) s = andThen (api t s) (api_all ts)"

text \<open>\<^verbatim>\<open>callback && callback(a)\<close>: an absent continuation is skipped.\<close>

definition invoke :: "callback option \<Rightarrow> argument \<Rightarrow> state \<Rightarrow> fault + state" where
  "invoke callback a s =
     (case callback of
        None \<Rightarrow> Inr s
      | Some cb \<Rightarrow> api_all (submits cb) (record_obs (Invoked (label cb) a) s))"

definition processError :: "domError \<Rightarrow> callback option \<Rightarrow> state \<Rightarrow> fault + state" where
  "processError e callback s = andThen (invoke callback (ErrorObject e) s) (nextValue True)"

definition initFs :: "handle \<Rightarrow> state \<Rightarrow> fault + state" where
  "initFs h s = nextValue True (s\<lparr>fs := Some h\<rparr>)"

text \<open>
  The constructor: the subject starts at \<^verbatim>\<open>false\<close>, the file system is requested with
  \<open>initFs\<close> as its only continuation, and the subscription delivers the current value
  \<^verbatim>\<open>false\<close> to the subscriber at once.
\<close>

definition constructor :: "bool \<Rightarrow> (string \<rightharpoonup> string) \<Rightarrow> fault + state" where
  "constructor eq disk =
     subscriber False
       (send RequestFileSystem
          \<lparr>fs = None, tasksProcessSubject = \<lparr>latest = False, emitsEqual = eq\<rparr>,
           tasksQueue = [], pending = [], files = disk, trace = []\<rparr>)"

section \<open>The task bodies and the backend\<close>

text \<open>\<^verbatim>\<open>new Blob([content])\<close>; a character of the model is a byte of the blob.\<close>

definition blob :: "task \<Rightarrow> string" where
  "blob t = (case kind t of ReadFile \<Rightarrow> [] | WriteFile c \<Rightarrow> c | AppendToFile c \<Rightarrow> c)"

definition appends :: "task \<Rightarrow> bool" where
  "appends t = (case kind t of AppendToFile c \<Rightarrow> True | _ \<Rightarrow> False)"

text \<open>
  Modelled from the spec: the backend's files are not part of the repository. Section 6
  of the specification gives the backend a write with the modes overwrite and append; the
  code builds both from the operations of a file writer, which are modelled as their names
  say. The files are a map from names to contents; a write puts the blob at the writer's
  position, \<^verbatim>\<open>seek\<close> moves the position (an offset beyond the end is the end),
  \<^verbatim>\<open>truncate\<close> cuts the file to a length (or pads it), and \<^verbatim>\<open>getFile\<close> with
  \<^verbatim>\<open>create: true\<close> makes an empty file when there is none. \<^verbatim>\<open>truncate\<close> is taken
  to have its effect when it is called: the code does not wait for it (line 82 removes
  the handler that would be told).
\<close>

definition fileLength :: "string \<Rightarrow> state \<Rightarrow> nat" where
  "fileLength nm s = (case files s nm of None \<Rightarrow> 0 | Some c \<Rightarrow> length c)"

definition seek :: "nat \<Rightarrow> state \<Rightarrow> fileWriter \<Rightarrow> fileWriter" where
  "seek n s w = w\<lparr>position := min n (fileLength (target w) s)\<rparr>"

definition truncate :: "fileWriter \<Rightarrow> nat \<Rightarrow> state \<Rightarrow> state" where
  "truncate w n s =
     (case files s (target w) of
        None \<Rightarrow> s
      | Some c \<Rightarrow> s\<lparr>files := (files s)(target w \<mapsto> take n c @ replicate (n - length c) (CHR 0x00))\<rparr>)"

definition written :: "fileWriter \<Rightarrow> string \<Rightarrow> state \<Rightarrow> state" where
  "written w data s =
     (let c = (case files s (target w) of None \<Rightarrow> [] | Some c \<Rightarrow> c)
      in s\<lparr>files := (files s)(target w \<mapsto>
              take (position w) c @ data @ drop (position w + length data) c)\<rparr>)"

text \<open>
  Running the function stored in a slot of the writer. An empty slot runs nothing.
\<close>

definition fire :: "handler option \<Rightarrow> fileWriter \<Rightarrow> argument \<Rightarrow> state \<Rightarrow> fault + state" where
  "fire h w a s =
     (case h of
        None \<Rightarrow> Inr s
      | Some (OverwriteEnd t) \<Rightarrow>
          andThen (invoke (onSuccessCallback t) NoArgument (truncate w (length (blob t)) s))
            (nextValue True)
      | Some (AppendEnd t) \<Rightarrow>
          andThen (invoke (onSuccessCallback t) NoArgument s) (nextValue True)
      | Some (ErrorThenNext t) \<Rightarrow>
          andThen (invoke (onErrorCallback t) a s) (nextValue True)
      | Some (Plain cb) \<Rightarrow> invoke (Some cb) a s)"

text \<open>
  The continuation of \<^verbatim>\<open>createWriter\<close> in \<open>writeFile\<close> (lines 77-94) and in
  \<open>appendToFile\<close> (lines 116-132): the assignments to the slots in the order of the
  source, then the write request.
\<close>

definition writerCreated :: "task \<Rightarrow> state \<Rightarrow> state" where
  "writerCreated t s =
     (let w0 = \<lparr>target = name t, position = 0, onwriteend = None, onerror = None\<rparr>;
          w1 = (if appends t then seek (fileLength (name t) s) s w0 else w0);
          w2 = w1\<lparr>onwriteend := Some (if appends t then AppendEnd t else OverwriteEnd t)\<rparr>;
          w3 = w2\<lparr>onerror := Some (ErrorThenNext t)\<rparr>;
          w4 = w3\<lparr>onerror := map_option Plain (onErrorCallback t)\<rparr>
      in send (WriteBlob w4 (blob t)) s)"

text \<open>
  The completion of a request runs what the code has put in its place: \<open>initFs\<close> (line
  28, which passes no function for an error); for \<^verbatim>\<open>getFile\<close> the second function or
  \<open>processError\<close> (lines 47-60, 76-100, 115-138), where a read of a file that is not
  there is an error; for \<^verbatim>\<open>fileEntry.file\<close> the function that starts the reader (line
  48, which passes no function for an error); for the reader \<^verbatim>\<open>onloadend\<close> (lines
  51-54), after a failure too, with no text to hand over; for \<^verbatim>\<open>createWriter\<close> the
  function that fills the writer or \<open>processError\<close>; for a write that succeeded the slot
  \<^verbatim>\<open>onwriteend\<close>, and for a write that failed the slot \<^verbatim>\<open>onerror\<close> and then the
  slot \<^verbatim>\<open>onwriteend\<close>. A failed write leaves the file as it was.
\<close>

definition resolve :: "request \<Rightarrow> outcome \<Rightarrow> state \<Rightarrow> fault + state" where
  "resolve r out s =
     (case r of
        RequestFileSystem \<Rightarrow>
          (case out of Succeed \<Rightarrow> initFs DOMFileSystem s | Fail e \<Rightarrow> Inr s)
      | GetFile t \<Rightarrow>
          (case out of
             Fail e \<Rightarrow> processError e (onErrorCallback t) s
           | Succeed \<Rightarrow>
               (if kind t = ReadFile then
                  (if files s (name t) = None
                   then processError NotFoundError (onErrorCallback t) s
                   else Inr (send (FileOf t) s))
                else
                  Inr (send (CreateWriter t)
                        (if files s (name t) = None
                         then s\<lparr>files := (files s)(name t \<mapsto> [])\<rparr> else s))))
      | FileOf t \<Rightarrow>
          (case out of Succeed \<Rightarrow> Inr (send (ReadAsText t) s) | Fail e \<Rightarrow> Inr s)
      | ReadAsText t \<Rightarrow>
          (case out of
             Succeed \<Rightarrow>
               andThen (nextValue True s)
                 (invoke (onSuccessCallback t)
                    (FileText (case files s (name t) of None \<Rightarrow> [] | Some c \<Rightarrow> c)))
           | Fail e \<Rightarrow> andThen (nextValue True s) (invoke (onSuccessCallback t) NoResult))
      | CreateWriter t \<Rightarrow>
          (case out of
             Succeed \<Rightarrow> Inr (writerCreated t s)
           | Fail e \<Rightarrow> processError e (onErrorCallback t) s)
      | WriteBlob w data \<Rightarrow>
          (case out of
             Succeed \<Rightarrow> fire (onwriteend w) w NoArgument (written w data s)
           | Fail e \<Rightarrow>
               andThen (fire (onerror w) w (ErrorObject e) s) (fire (onwriteend w) w NoArgument)))"

text \<open>
  What happens to a handler from outside: a caller uses a public method, or the backend
  completes the outstanding request at an index.
\<close>

datatype event = Call task | Resolve nat outcome

definition step :: "event \<Rightarrow> state \<Rightarrow> fault + state" where
  "step ev s =
     (case ev of
        Call t \<Rightarrow> api t s
      | Resolve i out \<Rightarrow>
          (if i < length (pending s)
           then resolve (pending s ! i) out
                  (s\<lparr>pending := take i (pending s) @ drop (Suc i) (pending s)\<rparr>)
           else Inr s))"

fun run :: "event list \<Rightarrow> state \<Rightarrow> fault + state" where
  "run [] s = Inr s"
| "run (ev # evs) s = andThen (step ev s) (run evs)"

definition execute :: "bool \<Rightarrow> (string \<rightharpoonup> string) \<Rightarrow> event list \<Rightarrow> fault + state" where
  "execute eq disk evs = andThen (constructor eq disk) (run evs)"

section \<open>What a run shows\<close>

text \<open>The value that \<^verbatim>\<open>tasksProcessSubject.getValue()\<close> would return.\<close>

abbreviation sig :: "state \<Rightarrow> bool" where
  "sig s \<equiv> latest (tasksProcessSubject s)"

text \<open>
  The tasks pushed by \<open>addTaskToQueue\<close>, the tasks shifted by \<open>deQueueTask\<close> and the
  tasks whose body was called, each in the order of the history.
\<close>

fun submitted_of :: "obs \<Rightarrow> task list" where
  "submitted_of (Submitted t) = [t]"
| "submitted_of _ = []"

fun dequeued_of :: "obs \<Rightarrow> task list" where
  "dequeued_of (Dequeued t) = [t]"
| "dequeued_of _ = []"

fun begun_of :: "obs \<Rightarrow> task list" where
  "begun_of (Begin t) = [t]"
| "begun_of _ = []"

definition submitted :: "obs list \<Rightarrow> task list" where
  "submitted l = concat (map submitted_of l)"

definition dequeued :: "obs list \<Rightarrow> task list" where
  "dequeued l = concat (map dequeued_of l)"

definition begun :: "obs list \<Rightarrow> task list" where
  "begun l = concat (map begun_of l)"

text \<open>
  The single-flight check of a history. It carries the value of the signal and whether a
  task is in flight: a task is in flight from the call of its body until the next
  \<^verbatim>\<open>next(true)\<close>. The check fails (\<open>None\<close>) when a task is dequeued or begun while
  another is in flight, or begun while the signal is true.
\<close>

fun flight_step :: "(bool \<times> bool) option \<Rightarrow> obs \<Rightarrow> (bool \<times> bool) option" where
  "flight_step None e = None"
| "flight_step (Some (v, busy)) (Next w) = Some (w, busy \<and> \<not> w)"
| "flight_step (Some (v, busy)) (Dequeued t) = (if busy then None else Some (v, busy))"
| "flight_step (Some (v, busy)) (Begin t) = (if busy \<or> v then None else Some (v, True))"
| "flight_step (Some (v, busy)) (Submitted t) = Some (v, busy)"
| "flight_step (Some (v, busy)) (Notified w) = Some (v, busy)"
| "flight_step (Some (v, busy)) (Invoked n a) = Some (v, busy)"

definition flight :: "obs list \<Rightarrow> (bool \<times> bool) option" where
  "flight l = foldl flight_step (Some (False, False)) l"

text \<open>What can be observed of a handler that has never had a file system.\<close>

fun quiet_obs :: "obs \<Rightarrow> bool" where
  "quiet_obs (Submitted t) = True"
| "quiet_obs (Notified v) = (\<not> v)"
| "quiet_obs (Next v) = (\<not> v)"
| "quiet_obs (Dequeued t) = False"
| "quiet_obs (Begin t) = False"
| "quiet_obs (Invoked n a) = False"

text \<open>
  A write request is \<open>built\<close> when the slots of its writer hold what \<open>writerCreated\<close>
  puts there: the error continuation or nothing in \<^verbatim>\<open>onerror\<close>, and one of the two
  functions of lines 80-86 and 120-124 in \<^verbatim>\<open>onwriteend\<close>.
\<close>

fun built :: "request \<Rightarrow> bool" where
  "built (WriteBlob w d) =
     ((case onerror w of None \<Rightarrow> True | Some (Plain c) \<Rightarrow> True | _ \<Rightarrow> False) \<and>
      (case onwriteend w of
         Some (OverwriteEnd t) \<Rightarrow> True
       | Some (AppendEnd t) \<Rightarrow> True
       | _ \<Rightarrow> False))"
| "built _ = True"

text \<open>
  The two invariants of the reachable states. \<open>settled\<close> is about the state: at most
  one request is outstanding, and it is built; while the signal is true nothing is
  outstanding, nothing is queued and the handle is there; without the handle only the file
  system request can be outstanding. \<open>coherent\<close> relates the state to its history.
\<close>

definition settled :: "state \<Rightarrow> bool" where
  "settled s \<longleftrightarrow>
     length (pending s) \<le> 1 \<and>
     (sig s \<longrightarrow> pending s = [] \<and> tasksQueue s = [] \<and> fs s \<noteq> None) \<and>
     (fs s = None \<longrightarrow> set (pending s) \<subseteq> {RequestFileSystem}) \<and>
     list_all built (pending s)"

definition coherent :: "state \<Rightarrow> bool" where
  "coherent s \<longleftrightarrow>
     begun (trace s) @ tasksQueue s = submitted (trace s) \<and>
     dequeued (trace s) = begun (trace s) \<and>
     (\<exists>busy. flight (trace s) = Some (sig s, busy) \<and> (sig s \<longrightarrow> \<not> busy)) \<and>
     (fs s = None \<longrightarrow> list_all quiet_obs (trace s))"

text \<open>The effect of \<^verbatim>\<open>next(false)\<close>, which never reaches \<open>deQueueTask\<close>.\<close>

definition silenced :: "state \<Rightarrow> state" where
  "silenced s =
     (let s' = record_obs (Next False) (s\<lparr>tasksProcessSubject := (tasksProcessSubject s)\<lparr>latest := False\<rparr>\<rparr>)
      in if sig s \<or> emitsEqual (tasksProcessSubject s) then record_obs (Notified False) s' else s')"

text \<open>
  What a call into the handler keeps: the invariants, the handle and, when the signal is
  false, the signal and the outstanding requests.
\<close>

definition carries :: "state \<Rightarrow> state \<Rightarrow> bool" where
  "carries s s' \<longleftrightarrow>
     settled s' \<and> coherent s' \<and> fs s' = fs s \<and>
     (\<not> sig s \<longrightarrow> \<not> sig s' \<and> pending s' = pending s)"

text \<open>The tasks that callers submit in a list of events.\<close>

fun call_of :: "event \<Rightarrow> task list" where
  "call_of (Call t) = [t]"
| "call_of (Resolve i out) = []"

definition calls :: "event list \<Rightarrow> task list" where
  "calls evs = concat (map call_of evs)"

text \<open>What one run of \<open>deQueueTask\<close> on a queue shows.\<close>

definition drained :: "task list \<Rightarrow> obs list" where
  "drained q =
     (case q of [] \<Rightarrow> [] | t # rest \<Rightarrow> [Dequeued t, Next False, Notified False, Begin t])"

text \<open>The continuations that were invoked, with their arguments, in order.\<close>

fun invoked_of :: "obs \<Rightarrow> (nat \<times> argument) list" where
  "invoked_of (Invoked n a) = [(n, a)]"
| "invoked_of _ = []"

definition invocations :: "obs list \<Rightarrow> (nat \<times> argument) list" where
  "invocations l = concat (map invoked_of l)"

text \<open>
  Two requests are made with no function for an error: \<^verbatim>\<open>requestFileSystem\<close> (line
  28) and \<^verbatim>\<open>fileEntry.file\<close> (line 48). An event is \<open>unserved\<close> in a state when it is
  the failure of such a request; a list of events is \<open>served\<close> from a state when none of
  its events is unserved in the state where it happens, and \<open>attended\<close> when it is
  served from the state that the constructor leaves.
\<close>

definition unserved :: "event \<Rightarrow> state \<Rightarrow> bool" where
  "unserved ev s =
     (case ev of
        Call t \<Rightarrow> False
      | Resolve i out \<Rightarrow>
          (case out of
             Succeed \<Rightarrow> False
           | Fail e \<Rightarrow>
               i < length (pending s) \<and>
               (case pending s ! i of
                  RequestFileSystem \<Rightarrow> True
                | FileOf t \<Rightarrow> True
                | _ \<Rightarrow> False)))"

fun served :: "event list \<Rightarrow> state \<Rightarrow> bool" where
  "served [] s = True"
| "served (ev # evs) s =
     (\<not> unserved ev s \<and> (case step ev s of Inl x \<Rightarrow> True | Inr s' \<Rightarrow> served evs s'))"

definition attended :: "bool \<Rightarrow> (string \<rightharpoonup> string) \<Rightarrow> event list \<Rightarrow> bool" where
  "attended eq disk evs = (case constructor eq disk of Inl x \<Rightarrow> True | Inr s \<Rightarrow> served evs s)"

text \<open>
  Progress: \<open>stage\<close> counts the requests that the task in progress has behind it, and
  \<open>progress\<close> grows with every completion that is served. A state is \<open>healthy\<close> when
  it has the invariants and its signal is true whenever nothing is outstanding.
\<close>

fun stage :: "request \<Rightarrow> nat" where
  "stage (FileOf t) = 1"
| "stage (CreateWriter t) = 1"
| "stage (ReadAsText t) = 2"
| "stage (WriteBlob w d) = 2"
| "stage _ = 0"

definition progress :: "state \<Rightarrow> nat" where
  "progress s = 3 * length (begun (trace s)) + (case pending s of [] \<Rightarrow> 0 | r # rs \<Rightarrow> stage r)"

definition healthy :: "state \<Rightarrow> bool" where
  "healthy s \<longleftrightarrow> settled s \<and> coherent s \<and> (pending s = [] \<longrightarrow> sig s)"

text \<open>
  What the invocation of a continuation shows, and the tasks it adds to the queue while
  the signal is false.
\<close>

definition called :: "callback option \<Rightarrow> argument \<Rightarrow> obs list" where
  "called cb a =
     (case cb of None \<Rightarrow> [] | Some c \<Rightarrow> Invoked (label c) a # map Submitted (submits c))"

definition added :: "callback option \<Rightarrow> task list" where
  "added cb = (case cb of None \<Rightarrow> [] | Some c \<Rightarrow> submits c)"



text \<open>Two tasks and four reachable states on which the theorems are instantiated.\<close>

definition sampleWrite :: task where
  "sampleWrite = Task (WriteFile ''hello'') ''a.txt'' (Some (Callback 1 [])) (Some (Callback 2 []))"

definition sampleRead :: task where
  "sampleRead = Task ReadFile ''a.txt'' (Some (Callback 3 [sampleWrite])) None"

definition unready :: state where
  "unready = projr (execute False Map.empty [])"

definition idle :: state where
  "idle = projr (execute False Map.empty [Resolve 0 Succeed])"

definition writing :: state where
  "writing =
     projr (execute False Map.empty [Resolve 0 Succeed, Call sampleWrite, Resolve 0 Succeed])"

definition reading :: state where
  "reading =
     projr (execute False [''a.txt'' \<mapsto> ''hello'']
              [Resolve 0 Succeed, Call sampleRead, Resolve 0 Succeed, Resolve 0 Succeed])"

text \<open>
  A third task, and three reachable states in which a task is in progress and another is
  queued behind it.
\<close>

definition sampleFetch :: task where
  "sampleFetch = Task ReadFile ''b.txt'' (Some (Callback 5 [])) (Some (Callback 6 []))"

definition fetching :: state where
  "fetching =
     projr (execute False Map.empty [Resolve 0 Succeed, Call sampleWrite, Call sampleFetch])"

definition creating :: state where
  "creating =
     projr (execute False Map.empty
              [Resolve 0 Succeed, Call sampleWrite, Call sampleFetch, Resolve 0 Succeed])"

definition seeking :: state where
  "seeking =
     projr (execute False Map.empty [Resolve 0 Succeed, Call sampleFetch, Call sampleWrite])"


section \<open>The scheduler's reachable states\<close>

subsection \<open>Histories\<close>

lemma submitted_simps [simp]:
  "submitted [] = []" "submitted (e # l) = submitted_of e @ submitted l"
  "submitted (l @ l') = submitted l @ submitted l'"
  by (simp_all add: submitted_def)

lemma dequeued_simps [simp]:
  "dequeued [] = []" "dequeued (e # l) = dequeued_of e @ dequeued l"
  "dequeued (l @ l') = dequeued l @ dequeued l'"
  by (simp_all add: dequeued_def)

lemma begun_simps [simp]:
  "begun [] = []" "begun (e # l) = begun_of e @ begun l"
  "begun (l @ l') = begun l @ begun l'"
  by (simp_all add: begun_def)

lemma flight_append [simp]: "flight (l @ l') = foldl flight_step (flight l) l'"
  by (simp add: flight_def)

declare nextValue.simps [simp del] subscriber.simps [simp del] deQueueTask.simps [simp del]

subsection \<open>The subject and the drain\<close>

lemma subscriber_False:
  "subscriber False s = Inr (record_obs (Notified False) s)"
  by (simp add: subscriber.simps Let_def)

lemma nextValue_False:
  "nextValue False s =
     Inr (let s' = record_obs (Next False) (s\<lparr>tasksProcessSubject := (tasksProcessSubject s)\<lparr>latest := False\<rparr>\<rparr>)
          in if sig s \<or> emitsEqual (tasksProcessSubject s) then record_obs (Notified False) s' else s')"
  by (simp add: nextValue.simps subscriber_False Let_def)

text \<open>
  What the parameter of the subject decides: with an empty queue, \<^verbatim>\<open>next(w)\<close> stores
  \<open>w\<close> and notifies the subscriber when \<open>w\<close> differs from the stored value or the subject
  emits equal values.
\<close>

lemma nextValue_notifies:
  assumes "tasksQueue s = []"
  shows "nextValue w s =
     Inr (let s' = record_obs (Next w) (s\<lparr>tasksProcessSubject := (tasksProcessSubject s)\<lparr>latest := w\<rparr>\<rparr>)
          in if sig s \<noteq> w \<or> emitsEqual (tasksProcessSubject s)
             then record_obs (Notified w) s' else s')"
  using assms
  by (simp add: nextValue.simps subscriber.simps Let_def record_obs_def)

lemma deQueueTask_cons:
  assumes "tasksQueue s = t # rest" "fs s = Some h"
  shows "deQueueTask s =
     Inr (send (GetFile t) (record_obs (Begin t)
            (silenced (record_obs (Dequeued t) (s\<lparr>tasksQueue := rest\<rparr>)))))"
  using assms
  by (simp add: deQueueTask.simps nextValue_False silenced_def runTask_def Let_def record_obs_def send_def)

lemma nextValue_True:
  "nextValue True s =
     (let s1 = record_obs (Next True) (s\<lparr>tasksProcessSubject := (tasksProcessSubject s)\<lparr>latest := True\<rparr>\<rparr>);
          s2 = record_obs (Notified True) s1
      in if \<not> sig s \<or> emitsEqual (tasksProcessSubject s)
         then (if tasksQueue s \<noteq> [] then deQueueTask s2 else Inr s2)
         else Inr s1)"
  by (simp add: nextValue.simps subscriber.simps Let_def record_obs_def)

subsection \<open>Calls keep the invariants\<close>

lemma addTaskToQueue_carries:
  assumes "settled s" "coherent s"
  shows "\<exists>s'. addTaskToQueue t s = Inr s' \<and> carries s s'"
proof (cases "sig s")
  case True
  with assms obtain h where h: "fs s = Some h" and q: "tasksQueue s = []" and p: "pending s = []"
    by (auto simp: settled_def)
  let ?s1 = "record_obs (Submitted t) (s\<lparr>tasksQueue := tasksQueue s @ [t]\<rparr>)"
  have q1: "tasksQueue ?s1 = t # []" and f1: "fs ?s1 = Some h"
    using q h by (simp_all add: record_obs_def)
  have "addTaskToQueue t s = deQueueTask ?s1"
    using True q by (simp add: addTaskToQueue_def Let_def getValue_def record_obs_def)
  also note deQueueTask_cons [OF q1 f1]
  finally show ?thesis
    using assms True h q p
    by (auto simp: carries_def settled_def coherent_def silenced_def Let_def
        record_obs_def send_def)
next
  case False
  then have "addTaskToQueue t s = Inr (record_obs (Submitted t) (s\<lparr>tasksQueue := tasksQueue s @ [t]\<rparr>))"
    by (simp add: addTaskToQueue_def Let_def getValue_def record_obs_def)
  then show ?thesis
    using assms False
    by (auto simp: carries_def settled_def coherent_def record_obs_def)
qed

lemma carries_trans:
  "carries s s' \<Longrightarrow> carries s' s'' \<Longrightarrow> carries s s''"
  by (auto simp: carries_def)

lemma api_carries:
  assumes "settled s" "coherent s"
  shows "\<exists>s'. api t s = Inr s' \<and> carries s s'"
  using assms
  by (cases "kind t")
     (simp_all add: api_def readFile_def writeFile_def appendToFile_def addTaskToQueue_carries)

lemma api_all_carries:
  assumes "settled s" "coherent s"
  shows "\<exists>s'. api_all ts s = Inr s' \<and> carries s s'"
  using assms
proof (induction ts arbitrary: s)
  case Nil
  then show ?case by (simp add: carries_def)
next
  case (Cons t ts)
  from api_carries [OF Cons.prems] obtain s1 where
    s1: "api t s = Inr s1" "carries s s1" by blast
  then have "settled s1" "coherent s1" by (simp_all add: carries_def)
  from Cons.IH [OF this] obtain s2 where
    s2: "api_all ts s1 = Inr s2" "carries s1 s2" by blast
  show ?case
    using s1 s2 by (auto simp: andThen_def intro: carries_trans)
qed

lemma invoke_carries:
  assumes "settled s" "coherent s" "fs s \<noteq> None"
  shows "\<exists>s'. invoke cb a s = Inr s' \<and> carries s s'"
proof (cases cb)
  case None
  then show ?thesis using assms by (simp add: invoke_def carries_def)
next
  case (Some c)
  let ?s1 = "record_obs (Invoked (label c) a) s"
  have c1: "carries s ?s1"
    using assms by (auto simp: carries_def settled_def coherent_def record_obs_def)
  then have "settled ?s1" "coherent ?s1" by (simp_all add: carries_def)
  from api_all_carries [OF this] obtain s2 where
    "api_all (submits c) ?s1 = Inr s2" "carries ?s1 s2" by blast
  with c1 Some show ?thesis
    by (auto simp: invoke_def intro: carries_trans)
qed

lemma nextValue_True_settles:
  assumes "settled s" "coherent s" "pending s = []" "fs s \<noteq> None"
  shows "\<exists>s'. nextValue True s = Inr s' \<and> settled s' \<and> coherent s' \<and> fs s' = fs s"
proof -
  from assms obtain h where h: "fs s = Some h" by auto
  let ?s1 = "record_obs (Next True) (s\<lparr>tasksProcessSubject := (tasksProcessSubject s)\<lparr>latest := True\<rparr>\<rparr>)"
  let ?s2 = "record_obs (Notified True) ?s1"
  show ?thesis
  proof (cases "tasksQueue s")
    case Nil
    then show ?thesis
      using assms h
      by (auto simp: nextValue_True Let_def settled_def coherent_def record_obs_def)
  next
    case (Cons t rest)
    then have ns: "\<not> sig s" using assms by (auto simp: settled_def)
    have q2: "tasksQueue ?s2 = t # rest" and f2: "fs ?s2 = Some h"
      using Cons h by (simp_all add: record_obs_def)
    have "nextValue True s = deQueueTask ?s2"
      using ns Cons by (simp add: nextValue_True Let_def)
    also note deQueueTask_cons [OF q2 f2]
    finally show ?thesis
      using assms h Cons ns
      by (auto simp: settled_def coherent_def silenced_def Let_def record_obs_def send_def)
  qed
qed


subsection \<open>Completions keep the invariants\<close>

lemma processError_settles:
  assumes "settled s" "coherent s" "pending s = []" "\<not> sig s" "fs s \<noteq> None"
  shows "\<exists>s'. processError e cb s = Inr s' \<and> settled s' \<and> coherent s' \<and> fs s' = fs s"
proof -
  from invoke_carries [OF assms(1,2,5)] obtain s1 where
    s1: "invoke cb (ErrorObject e) s = Inr s1" "carries s s1" by blast
  with assms have "settled s1" "coherent s1" "pending s1 = []" "fs s1 \<noteq> None"
    by (simp_all add: carries_def)
  from nextValue_True_settles [OF this] s1 show ?thesis
    by (auto simp: processError_def andThen_def carries_def)
qed

lemma files_update_settled [simp]: "settled (s\<lparr>files := f\<rparr>) = settled s"
  by (simp add: settled_def)

lemma files_update_coherent [simp]: "coherent (s\<lparr>files := f\<rparr>) = coherent s"
  by (simp add: coherent_def)

lemma truncate_same [simp]:
  "settled (truncate w n s) = settled s" "coherent (truncate w n s) = coherent s"
  "pending (truncate w n s) = pending s" "fs (truncate w n s) = fs s"
  "tasksProcessSubject (truncate w n s) = tasksProcessSubject s"
  by (simp_all add: truncate_def split: option.split)

lemma written_same [simp]:
  "settled (written w b s) = settled s" "coherent (written w b s) = coherent s"
  "pending (written w b s) = pending s" "fs (written w b s) = fs s"
  "tasksProcessSubject (written w b s) = tasksProcessSubject s"
  by (simp_all add: written_def Let_def)

lemma then_next_settles:
  assumes "settled s" "coherent s" "pending s = []" "\<not> sig s" "fs s \<noteq> None"
  shows "\<exists>s'. andThen (invoke cb a s) (nextValue True) = Inr s' \<and> settled s' \<and> coherent s'
            \<and> fs s' = fs s"
proof -
  from invoke_carries [OF assms(1,2,5)] obtain s1 where
    s1: "invoke cb a s = Inr s1" "carries s s1" by blast
  with assms have "settled s1" "coherent s1" "pending s1 = []" "fs s1 \<noteq> None"
    by (simp_all add: carries_def)
  from nextValue_True_settles [OF this] s1 show ?thesis
    by (auto simp: andThen_def carries_def)
qed

lemma fire_settles:
  assumes "settled s" "coherent s" "pending s = []" "\<not> sig s" "fs s \<noteq> None"
  shows "\<exists>s'. fire h w a s = Inr s' \<and> settled s' \<and> coherent s' \<and> fs s' = fs s"
proof (cases h)
  case None
  then show ?thesis using assms by (simp add: fire_def)
next
  case (Some f)
  show ?thesis
  proof (cases f)
    case (OverwriteEnd t)
    have "\<exists>s'. andThen (invoke (onSuccessCallback t) NoArgument (truncate w (length (blob t)) s))
             (nextValue True) = Inr s' \<and> settled s' \<and> coherent s'
             \<and> fs s' = fs (truncate w (length (blob t)) s)"
      by (rule then_next_settles) (use assms in simp_all)
    then show ?thesis using Some OverwriteEnd by (simp add: fire_def)
  next
    case (AppendEnd t)
    then show ?thesis
      using Some then_next_settles [OF assms] by (simp add: fire_def)
  next
    case (ErrorThenNext t)
    then show ?thesis
      using Some then_next_settles [OF assms] by (simp add: fire_def)
  next
    case (Plain cb)
    from invoke_carries [OF assms(1,2,5)] obtain s1 where
      "invoke (Some cb) a s = Inr s1" "carries s s1" by blast
    then show ?thesis
      using Some Plain by (auto simp: fire_def carries_def)
  qed
qed

lemma fire_onerror:
  assumes "settled s" "coherent s" "pending s = []" "\<not> sig s" "fs s \<noteq> None"
    and "case h of None \<Rightarrow> True | Some (Plain c) \<Rightarrow> True | _ \<Rightarrow> False"
  shows "\<exists>s'. fire h w a s = Inr s' \<and> settled s' \<and> coherent s' \<and> pending s' = [] \<and>
            \<not> sig s' \<and> fs s' = fs s"
proof (cases h)
  case None
  then show ?thesis using assms by (simp add: fire_def)
next
  case (Some f)
  with assms(6) obtain cb where f: "f = Plain cb"
    by (cases f) simp_all
  from invoke_carries [OF assms(1,2,5)] obtain s1 where
    "invoke (Some cb) a s = Inr s1" "carries s s1" by blast
  then show ?thesis
    using Some f assms(3,4) by (auto simp: fire_def carries_def)
qed

lemma send_settles:
  assumes "settled s" "coherent s" "pending s = []" "\<not> sig s" "fs s \<noteq> None" "built r"
  shows "settled (send r s) \<and> coherent (send r s) \<and> fs (send r s) = fs s"
  using assms by (auto simp: settled_def coherent_def send_def)

lemma initFs_settles:
  assumes "settled s" "coherent s" "pending s = []"
  shows "\<exists>s'. initFs h s = Inr s' \<and> settled s' \<and> coherent s'"
proof -
  have "\<exists>s'. nextValue True (s\<lparr>fs := Some h\<rparr>) = Inr s' \<and> settled s' \<and> coherent s'
          \<and> fs s' = fs (s\<lparr>fs := Some h\<rparr>)"
    by (rule nextValue_True_settles) (use assms in \<open>auto simp: settled_def coherent_def\<close>)
  then show ?thesis by (auto simp: initFs_def)
qed

lemma resolve_settles:
  assumes "settled s" "coherent s" "pending s = []" "\<not> sig s"
    and "r \<noteq> RequestFileSystem \<Longrightarrow> fs s \<noteq> None" and "built r"
  shows "\<exists>s'. resolve r out s = Inr s' \<and> settled s' \<and> coherent s'"
proof (cases r)
  case RequestFileSystem
  then show ?thesis
    using assms initFs_settles [OF assms(1,2,3)]
    by (cases out) (simp_all add: resolve_def)
next
  case (GetFile t)
  with assms have f: "fs s \<noteq> None" by simp
  note pe = processError_settles [OF assms(1-4) f]
  have rq: "settled (send (FileOf t) s) \<and> coherent (send (FileOf t) s)"
    using send_settles [OF assms(1-4) f, of "FileOf t"] by simp
  have cr: "\<And>f. settled (send (CreateWriter t) (s\<lparr>files := f\<rparr>)) \<and>
      coherent (send (CreateWriter t) (s\<lparr>files := f\<rparr>))"
    using assms f by (auto simp: settled_def coherent_def send_def)
  have cr': "settled (send (CreateWriter t) s) \<and> coherent (send (CreateWriter t) s)"
    using send_settles [OF assms(1-4) f, of "CreateWriter t"] by simp
  show ?thesis
  proof (cases out)
    case Succeed
    then show ?thesis
      using GetFile rq cr cr' pe [of NotFoundError "onErrorCallback t"]
      by (auto simp: resolve_def)
  next
    case (Fail e)
    then show ?thesis
      using GetFile pe [of e "onErrorCallback t"] by (auto simp: resolve_def)
  qed
next
  case (FileOf t)
  with assms have f: "fs s \<noteq> None" by simp
  show ?thesis
    using FileOf assms send_settles [OF assms(1-4) f, of "ReadAsText t"]
    by (cases out) (simp_all add: resolve_def)
next
  case (ReadAsText t)
  with assms have f: "fs s \<noteq> None" by simp
  from nextValue_True_settles [OF assms(1-3) f] obtain s1 where
    s1: "nextValue True s = Inr s1" "settled s1" "coherent s1" "fs s1 = fs s" by blast
  with f have f1: "fs s1 \<noteq> None" by simp
  have "\<exists>s'. andThen (nextValue True s) (invoke (onSuccessCallback t) a) = Inr s' \<and>
      settled s' \<and> coherent s'" for a
    using invoke_carries [OF s1(2,3) f1, of "onSuccessCallback t" a] s1(1)
    by (auto simp: andThen_def carries_def)
  then show ?thesis
    using ReadAsText by (cases out) (simp_all add: resolve_def)
next
  case (CreateWriter t)
  with assms have f: "fs s \<noteq> None" by simp
  show ?thesis
  proof (cases out)
    case Succeed
    let ?w = "\<lparr>target = name t,
               position = (if appends t then min (fileLength (name t) s) (fileLength (name t) s) else 0),
               onwriteend = Some (if appends t then AppendEnd t else OverwriteEnd t),
               onerror = map_option Plain (onErrorCallback t)\<rparr>"
    have w: "writerCreated t s = send (WriteBlob ?w (blob t)) s"
      by (simp add: writerCreated_def Let_def seek_def)
    have "built (WriteBlob ?w (blob t))"
      by (cases "onErrorCallback t") simp_all
    from send_settles [OF assms(1-4) f this] w show ?thesis
      using CreateWriter Succeed by (simp add: resolve_def)
  next
    case (Fail e)
    then show ?thesis
      using CreateWriter processError_settles [OF assms(1-4) f, of e "onErrorCallback t"]
      by (auto simp: resolve_def)
  qed
next
  case (WriteBlob w data)
  with assms have f: "fs s \<noteq> None" by simp
  show ?thesis
  proof (cases out)
    case Succeed
    have "\<exists>s'. fire (onwriteend w) w NoArgument (written w data s) = Inr s' \<and> settled s'
            \<and> coherent s' \<and> fs s' = fs (written w data s)"
      by (rule fire_settles) (use assms f in simp_all)
    then show ?thesis using WriteBlob Succeed by (auto simp: resolve_def)
  next
    case (Fail e)
    have "case onerror w of None \<Rightarrow> True | Some (Plain c) \<Rightarrow> True | _ \<Rightarrow> False"
      using assms(6) WriteBlob by simp
    from fire_onerror [OF assms(1-4) f this, of w "ErrorObject e"] obtain s1 where
      s1: "fire (onerror w) w (ErrorObject e) s = Inr s1" "settled s1" "coherent s1"
      "pending s1 = []" "\<not> sig s1" "fs s1 = fs s" by blast
    with f have "fs s1 \<noteq> None" by simp
    from fire_settles [OF s1(2-5) this, of "onwriteend w" w NoArgument] s1(1) show ?thesis
      using WriteBlob Fail by (auto simp: resolve_def andThen_def)
  qed
qed

lemma step_settles:
  assumes "settled s" "coherent s"
  shows "\<exists>s'. step ev s = Inr s' \<and> settled s' \<and> coherent s'"
proof (cases ev)
  case (Call t)
  then show ?thesis
    using api_carries [OF assms, of t] by (auto simp: step_def carries_def)
next
  case (Resolve i out)
  show ?thesis
  proof (cases "i < length (pending s)")
    case False
    then show ?thesis using Resolve assms by (simp add: step_def)
  next
    case True
    with assms obtain r where p: "pending s = [r]" and i: "i = 0"
      by (cases "pending s") (auto simp: settled_def)
    let ?s0 = "s\<lparr>pending := take i (pending s) @ drop (Suc i) (pending s)\<rparr>"
    have "\<exists>s'. resolve r out ?s0 = Inr s' \<and> settled s' \<and> coherent s'"
      by (rule resolve_settles) (use assms p i in \<open>auto simp: settled_def coherent_def\<close>)
    then show ?thesis using Resolve True p i by (simp add: step_def)
  qed
qed

lemma run_settles:
  assumes "settled s" "coherent s"
  shows "\<exists>s'. run evs s = Inr s' \<and> settled s' \<and> coherent s'"
  using assms
proof (induction evs arbitrary: s)
  case Nil
  then show ?case by simp
next
  case (Cons ev evs)
  from step_settles [OF Cons.prems] obtain s1 where
    s1: "step ev s = Inr s1" "settled s1" "coherent s1" by blast
  from Cons.IH [OF s1(2,3)] s1(1) show ?case by (simp add: andThen_def)
qed

lemma constructor_settles:
  "\<exists>s. constructor eq disk = Inr s \<and> settled s \<and> coherent s"
  by (auto simp: constructor_def subscriber_False send_def record_obs_def settled_def
      coherent_def flight_def)

lemma execute_settles:
  "\<exists>s. execute eq disk evs = Inr s \<and> settled s \<and> coherent s"
proof -
  from constructor_settles obtain s0 where
    "constructor eq disk = Inr s0" "settled s0" "coherent s0" by blast
  with run_settles [of s0 evs] show ?thesis
    by (auto simp: execute_def andThen_def)
qed


section \<open>Histories only grow\<close>

lemma calls_simps [simp]:
  "calls [] = []" "calls (ev # evs) = call_of ev @ calls evs"
  "calls (evs @ evs') = calls evs @ calls evs'"
  by (simp_all add: calls_def)

lemma api_eq: "api t s = addTaskToQueue t s"
  by (cases t; cases "kind t")
     (simp_all add: api_def readFile_def writeFile_def appendToFile_def)

lemma deQueueTask_trace:
  "deQueueTask s = Inr s' \<Longrightarrow> \<exists>l. trace s' = trace s @ l"
  by (auto simp: deQueueTask.simps nextValue_False runTask_def Let_def record_obs_def
      send_def split: list.splits option.splits if_splits)

lemma nextValue_trace:
  "nextValue v s = Inr s' \<Longrightarrow> \<exists>l. trace s' = trace s @ Next v # l"
proof (cases v)
  case False
  assume "nextValue v s = Inr s'"
  with False show ?thesis
    by (auto simp: nextValue_False Let_def record_obs_def split: if_splits)
next
  case True
  assume "nextValue v s = Inr s'"
  with True show ?thesis
    by (auto simp: nextValue_True Let_def record_obs_def split: if_splits
        dest!: deQueueTask_trace)
qed

lemma addTaskToQueue_trace:
  "addTaskToQueue t s = Inr s' \<Longrightarrow> \<exists>l. trace s' = trace s @ Submitted t # l"
  by (auto simp: addTaskToQueue_def Let_def record_obs_def split: if_splits
      dest!: deQueueTask_trace)

lemma api_all_trace:
  "api_all ts s = Inr s' \<Longrightarrow> \<exists>l. trace s' = trace s @ l"
proof (induction ts arbitrary: s)
  case Nil
  then show ?case by simp
next
  case (Cons t ts)
  then obtain s1 where s1: "addTaskToQueue t s = Inr s1" "api_all ts s1 = Inr s'"
    by (auto simp: andThen_def api_eq split: sum.splits)
  from addTaskToQueue_trace [OF s1(1)] Cons.IH [OF s1(2)] show ?case by auto
qed

lemma invoke_trace:
  "invoke cb a s = Inr s' \<Longrightarrow> \<exists>l. trace s' = trace s @ l"
  by (cases cb) (auto simp: invoke_def record_obs_def dest!: api_all_trace)

lemma then_next_trace:
  "andThen (invoke cb a s) (nextValue True) = Inr s' \<Longrightarrow> \<exists>l. trace s' = trace s @ l"
  by (auto simp: andThen_def split: sum.splits dest!: invoke_trace nextValue_trace)

lemma fire_trace:
  "fire h w a s = Inr s' \<Longrightarrow> \<exists>l. trace s' = trace s @ l"
proof (cases h)
  case None
  assume "fire h w a s = Inr s'"
  with None show ?thesis by (simp add: fire_def)
next
  case (Some f)
  assume "fire h w a s = Inr s'"
  with Some show ?thesis
    by (cases f)
       (auto simp: fire_def truncate_def split: option.splits
        dest!: then_next_trace invoke_trace)
qed

lemma resolve_trace:
  assumes "resolve r out s = Inr s'"
  shows "\<exists>l. trace s' = trace s @ l"
proof (cases r)
  case RequestFileSystem
  with assms show ?thesis
    by (cases out) (auto simp: resolve_def initFs_def dest!: nextValue_trace)
next
  case (GetFile t)
  with assms show ?thesis
    by (cases out)
       (auto simp: resolve_def processError_def send_def split: if_splits
        dest!: then_next_trace)
next
  case (FileOf t)
  with assms show ?thesis
    by (cases out) (auto simp: resolve_def send_def)
next
  case (ReadAsText t)
  with assms show ?thesis
    by (cases out)
       (auto simp: resolve_def andThen_def split: sum.splits
        dest!: nextValue_trace invoke_trace)
next
  case (CreateWriter t)
  with assms show ?thesis
    by (cases out)
       (auto simp: resolve_def processError_def writerCreated_def Let_def send_def
        dest!: then_next_trace)
next
  case (WriteBlob w data)
  with assms show ?thesis
    by (cases out)
       (auto simp: resolve_def written_def Let_def andThen_def split: sum.splits
        dest!: fire_trace)
qed

lemma step_trace:
  assumes "step ev s = Inr s'"
  shows "\<exists>l. trace s' = trace s @ map Submitted (call_of ev) @ l"
proof (cases ev)
  case (Call t)
  with assms show ?thesis
    by (auto simp: step_def api_eq dest!: addTaskToQueue_trace)
next
  case (Resolve i out)
  with assms show ?thesis
    by (auto simp: step_def split: if_splits dest!: resolve_trace)
qed

lemma run_trace:
  "run evs s = Inr s' \<Longrightarrow> \<exists>l. trace s' = trace s @ l \<and> subseq (calls evs) (submitted l)"
proof (induction evs arbitrary: s)
  case Nil
  then show ?case by simp
next
  case (Cons ev evs)
  then obtain s1 where s1: "step ev s = Inr s1" "run evs s1 = Inr s'"
    by (auto simp: andThen_def split: sum.splits)
  from step_trace [OF s1(1)] obtain l1 where
    l1: "trace s1 = trace s @ map Submitted (call_of ev) @ l1" by blast
  from Cons.IH [OF s1(2)] obtain l2 where
    l2: "trace s' = trace s1 @ l2" "subseq (calls evs) (submitted l2)" by blast
  have "submitted (map Submitted (call_of ev)) = call_of ev"
    by (cases ev) simp_all
  then have "subseq (call_of ev @ calls evs) (submitted (map Submitted (call_of ev) @ l1 @ l2))"
    using l2(2) by (simp add: list_emb_append_mono list_emb_append2)
  with l1 l2(1) show ?case by auto
qed

section \<open>A handler that cannot start a task\<close>

text \<open>
  With the signal false and no request outstanding, nothing that can happen changes
  either: calls only append to the queue. The same holds before the file system is
  there, as long as its request does not succeed.
\<close>

lemma run_append:
  "run (evs @ evs') s = andThen (run evs s) (run evs')"
  by (induction evs arbitrary: s) (auto simp: andThen_def split: sum.splits)

lemma stalled_step:
  assumes "\<not> sig s" "pending s = []"
  shows "step ev s = Inr (s\<lparr>tasksQueue := tasksQueue s @ call_of ev,
                             trace := trace s @ map Submitted (call_of ev)\<rparr>)"
  using assms
  by (cases ev)
     (simp_all add: step_def api_eq addTaskToQueue_def Let_def getValue_def record_obs_def)

lemma stalled_run:
  assumes "\<not> sig s" "pending s = []"
  shows "run evs s = Inr (s\<lparr>tasksQueue := tasksQueue s @ calls evs,
                             trace := trace s @ map Submitted (calls evs)\<rparr>)"
  using assms
proof (induction evs arbitrary: s)
  case Nil
  then show ?case by simp
next
  case (Cons ev evs)
  let ?s1 = "s\<lparr>tasksQueue := tasksQueue s @ call_of ev,
                trace := trace s @ map Submitted (call_of ev)\<rparr>"
  have "run evs ?s1 = Inr (?s1\<lparr>tasksQueue := tasksQueue ?s1 @ calls evs,
                             trace := trace ?s1 @ map Submitted (calls evs)\<rparr>)"
    by (rule Cons.IH) (use Cons.prems in simp_all)
  then show ?case
    using stalled_step [OF Cons.prems, of ev] by (simp add: andThen_def)
qed

lemma uninitialised_run:
  assumes "\<not> sig s" "pending s = [RequestFileSystem]" "Resolve 0 Succeed \<notin> set evs"
  shows "\<exists>p. run evs s = Inr (s\<lparr>tasksQueue := tasksQueue s @ calls evs, pending := p,
                             trace := trace s @ map Submitted (calls evs)\<rparr>)"
  using assms
proof (induction evs arbitrary: s)
  case Nil
  then show ?case by (auto intro: exI [of _ "pending s"])
next
  case (Cons ev evs)
  show ?case
  proof (cases ev)
    case (Call t)
    let ?s1 = "s\<lparr>tasksQueue := tasksQueue s @ [t], trace := trace s @ [Submitted t]\<rparr>"
    have st: "step ev s = Inr ?s1"
      using Call Cons.prems
      by (simp add: step_def api_eq addTaskToQueue_def Let_def getValue_def record_obs_def)
    have "\<exists>p. run evs ?s1 = Inr (?s1\<lparr>tasksQueue := tasksQueue ?s1 @ calls evs, pending := p,
                             trace := trace ?s1 @ map Submitted (calls evs)\<rparr>)"
      by (rule Cons.IH) (use Cons.prems in simp_all)
    then show ?thesis using st Call by (auto simp: andThen_def)
  next
    case (Resolve i out)
    show ?thesis
    proof (cases i)
      case (Suc j)
      then have st: "step ev s = Inr s"
        using Resolve Cons.prems by (simp add: step_def)
      from Cons.IH [of s] Cons.prems show ?thesis
        using st Resolve by (auto simp: andThen_def)
    next
      case 0
      with Resolve Cons.prems obtain e where e: "out = Fail e" by (cases out) auto
      let ?s1 = "s\<lparr>pending := []\<rparr>"
      have st: "step ev s = Inr ?s1"
        using Resolve 0 e Cons.prems by (simp add: step_def resolve_def)
      have "run evs ?s1 = Inr (?s1\<lparr>tasksQueue := tasksQueue ?s1 @ calls evs,
                             trace := trace ?s1 @ map Submitted (calls evs)\<rparr>)"
        by (rule stalled_run) (use Cons.prems in simp_all)
      then show ?thesis
        using st Resolve by (auto simp: andThen_def intro!: exI [of _ "[]"])
    qed
  qed
qed


section \<open>Explicit results\<close>

lemma busy_api_all:
  "\<not> sig s \<Longrightarrow>
     api_all ts s = Inr (s\<lparr>tasksQueue := tasksQueue s @ ts, trace := trace s @ map Submitted ts\<rparr>)"
proof (induction ts arbitrary: s)
  case Nil
  then show ?case by simp
next
  case (Cons t ts)
  let ?s1 = "s\<lparr>tasksQueue := tasksQueue s @ [t], trace := trace s @ [Submitted t]\<rparr>"
  have "api t s = Inr ?s1"
    using Cons.prems
    by (simp add: api_eq addTaskToQueue_def Let_def getValue_def record_obs_def)
  moreover have "api_all ts ?s1 =
      Inr (?s1\<lparr>tasksQueue := tasksQueue ?s1 @ ts, trace := trace ?s1 @ map Submitted ts\<rparr>)"
    by (rule Cons.IH) (use Cons.prems in simp)
  ultimately show ?case by (simp add: andThen_def)
qed

lemma busy_invoke:
  "\<not> sig s \<Longrightarrow>
     invoke (Some cb) a s =
       Inr (s\<lparr>tasksQueue := tasksQueue s @ submits cb,
              trace := trace s @ Invoked (label cb) a # map Submitted (submits cb)\<rparr>)"
  by (simp add: invoke_def busy_api_all record_obs_def)

lemma nextValue_True_busy:
  assumes "\<not> sig s" "fs s = Some h"
  shows "nextValue True s =
     Inr (s\<lparr>tasksProcessSubject := (tasksProcessSubject s)\<lparr>latest := (tasksQueue s = [])\<rparr>,
            tasksQueue := tl (tasksQueue s),
            pending := pending s @ (case tasksQueue s of [] \<Rightarrow> [] | t # rest \<Rightarrow> [GetFile t]),
            trace := trace s @ [Next True, Notified True] @ drained (tasksQueue s)\<rparr>)"
proof (cases "tasksQueue s")
  case Nil
  then show ?thesis
    using assms by (simp add: nextValue_True Let_def record_obs_def drained_def)
next
  case (Cons t rest)
  let ?s2 = "record_obs (Notified True) (record_obs (Next True)
      (s\<lparr>tasksProcessSubject := (tasksProcessSubject s)\<lparr>latest := True\<rparr>\<rparr>))"
  have q2: "tasksQueue ?s2 = t # rest" and f2: "fs ?s2 = Some h"
    using Cons assms by (simp_all add: record_obs_def)
  have "nextValue True s = deQueueTask ?s2"
    using assms Cons by (simp add: nextValue_True Let_def)
  also note deQueueTask_cons [OF q2 f2]
  finally show ?thesis
    using Cons
    by (simp add: silenced_def Let_def record_obs_def send_def drained_def)
qed

lemma idle_api_all:
  assumes "sig s" "tasksQueue s = []" "fs s = Some h"
  shows "\<exists>s' l. api_all ts s = Inr s' \<and> trace s' = trace s @ l"
proof (cases ts)
  case Nil
  then show ?thesis by simp
next
  case (Cons t rest)
  let ?s1 = "record_obs (Submitted t) (s\<lparr>tasksQueue := tasksQueue s @ [t]\<rparr>)"
  have q1: "tasksQueue ?s1 = t # []" and f1: "fs ?s1 = Some h"
    using assms by (simp_all add: record_obs_def)
  have "api t s = deQueueTask ?s1"
    using assms by (simp add: api_eq addTaskToQueue_def Let_def getValue_def record_obs_def)
  also note deQueueTask_cons [OF q1 f1]
  finally obtain s1 where s1: "api t s = Inr s1" "\<not> sig s1"
    "trace s1 = trace s @ [Submitted t, Dequeued t, Next False, Notified False, Begin t]"
    using assms by (simp add: silenced_def Let_def record_obs_def send_def)
  from busy_api_all [OF s1(2), of rest] s1(1,3) Cons show ?thesis
    by (simp add: andThen_def)
qed

lemma execute_append:
  "execute eq disk (evs @ evs') = andThen (execute eq disk evs) (run evs')"
  by (auto simp: execute_def run_append andThen_def split: sum.splits)

lemma invocations_simps [simp]:
  "invocations [] = []" "invocations (e # l) = invoked_of e @ invocations l"
  "invocations (l @ l') = invocations l @ invocations l'"
  by (simp_all add: invocations_def)

lemma map_Submitted [simp]:
  "begun (map Submitted ts) = []" "dequeued (map Submitted ts) = []"
  "submitted (map Submitted ts) = ts" "invocations (map Submitted ts) = []"
  by (induction ts) simp_all

lemma calls_map_Call [simp]: "calls (map Call ts) = ts"
  by (induction ts) simp_all


section \<open>Progress when every completion is served\<close>

lemma drained_begun [simp]:
  "begun (drained q) = take 1 q" "dequeued (drained q) = take 1 q"
  "submitted (drained q) = []" "invocations (drained q) = []"
  by (cases q; simp add: drained_def)+

lemma release:
  assumes "settled s" "coherent s" "pending s = []" "\<not> sig s" "fs s \<noteq> None"
  shows "\<exists>s'. andThen (invoke cb a s) (nextValue True) = Inr s' \<and> healthy s' \<and>
     (pending s' = [] \<or>
      (\<exists>t. pending s' = [GetFile t]) \<and>
        length (begun (trace s')) = Suc (length (begun (trace s))))"
proof -
  from assms obtain h where h: "fs s = Some h" by auto
  from then_next_settles [OF assms, of cb a] obtain s' where
    s': "andThen (invoke cb a s) (nextValue True) = Inr s'" "settled s'" "coherent s'"
    "fs s' = fs s" by blast
  obtain s1 where s1: "invoke cb a s = Inr s1" "\<not> sig s1" "fs s1 = Some h" "pending s1 = []"
    "begun (trace s1) = begun (trace s)"
  proof (cases cb)
    case None
    with assms h that [of s] show ?thesis by (simp add: invoke_def)
  next
    case (Some c)
    with busy_invoke [OF assms(4), of c a] assms h that show ?thesis by simp
  qed
  from nextValue_True_busy [OF s1(2,3)] s1(1) s'(1)
  have "pending s' = (case tasksQueue s1 of [] \<Rightarrow> [] | t # rest \<Rightarrow> [GetFile t])"
    "sig s' = (tasksQueue s1 = [])"
    "begun (trace s') = begun (trace s1) @ take 1 (tasksQueue s1)"
    using s1(4) by (auto simp: andThen_def)
  with s' s1(5) assms(5) show ?thesis
    by (cases "tasksQueue s1") (auto simp: healthy_def)
qed

lemma release_read:
  assumes "settled s" "coherent s" "pending s = []" "\<not> sig s" "fs s \<noteq> None"
  shows "\<exists>s'. andThen (nextValue True s) (invoke cb a) = Inr s' \<and> healthy s' \<and>
     (pending s' = [] \<or>
      (\<exists>t. pending s' = [GetFile t]) \<and>
        length (begun (trace s')) = Suc (length (begun (trace s))))"
proof -
  from assms obtain h where h: "fs s = Some h" by auto
  from nextValue_True_settles [OF assms(1-3,5)] obtain s1 where
    s1: "nextValue True s = Inr s1" "settled s1" "coherent s1" "fs s1 = fs s" by blast
  from nextValue_True_busy [OF assms(4) h] s1(1)
  have e1: "pending s1 = (case tasksQueue s of [] \<Rightarrow> [] | t # rest \<Rightarrow> [GetFile t])"
    "sig s1 = (tasksQueue s = [])" "tasksQueue s1 = tl (tasksQueue s)"
    "begun (trace s1) = begun (trace s) @ take 1 (tasksQueue s)"
    using assms(3) by auto
  show ?thesis
  proof (cases cb)
    case None
    with s1 e1 assms(5) show ?thesis
      by (cases "tasksQueue s") (auto simp: andThen_def invoke_def healthy_def)
  next
    case (Some c)
    show ?thesis
    proof (cases "tasksQueue s")
      case (Cons t rest)
      with e1 have ns: "\<not> sig s1" by simp
      from s1(4) assms(5) have "fs s1 \<noteq> None" by simp
      from invoke_carries [OF s1(2,3) this, of cb a] obtain s' where
        s': "invoke cb a s1 = Inr s'" "carries s1 s'" by blast
      from busy_invoke [OF ns, of c a] s'(1) Some
      have "begun (trace s') = begun (trace s1)" by auto
      with s' s1 e1 Cons ns assms(5) show ?thesis
        by (auto simp: andThen_def healthy_def carries_def)
    next
      case Nil
      let ?s2 = "record_obs (Invoked (label c) a) s1"
      from Nil e1 s1(4) h have i: "sig s1" "tasksQueue s1 = []" "fs s1 = Some h" "pending s1 = []"
        by simp_all
      have inv: "invoke cb a s1 = api_all (submits c) ?s2"
        using Some by (simp add: invoke_def)
      from s1(4) assms(5) have "fs s1 \<noteq> None" by simp
      from invoke_carries [OF s1(2,3) this, of cb a] obtain s' where
        s': "invoke cb a s1 = Inr s'" "carries s1 s'" by blast
      show ?thesis
      proof (cases "submits c")
        case Nil
        with inv s' have "s' = ?s2" by simp
        with s' s1 i assms(5) show ?thesis
          by (auto simp: andThen_def healthy_def carries_def record_obs_def)
      next
        case (Cons u us)
        let ?s3 = "record_obs (Submitted u) (?s2\<lparr>tasksQueue := tasksQueue ?s2 @ [u]\<rparr>)"
        have q3: "tasksQueue ?s3 = u # []" and f3: "fs ?s3 = Some h"
          using i by (simp_all add: record_obs_def)
        have "api u ?s2 = deQueueTask ?s3"
          using i by (simp add: api_eq addTaskToQueue_def Let_def getValue_def record_obs_def)
        also note deQueueTask_cons [OF q3 f3]
        finally obtain s4 where s4: "api u ?s2 = Inr s4" "\<not> sig s4"
          "pending s4 = [GetFile u]" "begun (trace s4) = begun (trace s1) @ [u]"
          using i by (simp add: silenced_def Let_def record_obs_def send_def)
        from busy_api_all [OF s4(2), of us] s4 inv Cons s'(1)
        have "pending s' = [GetFile u]" "begun (trace s') = begun (trace s1) @ [u]"
          by (auto simp: andThen_def)
        with s' s1 e1 Nil assms(5) show ?thesis
          by (auto simp: andThen_def healthy_def carries_def)
      qed
    qed
  qed
qed


lemma busy_called:
  assumes "\<not> sig s"
  shows "invoke cb a s =
     Inr (s\<lparr>tasksQueue := tasksQueue s @ added cb, trace := trace s @ called cb a\<rparr>)"
proof (cases cb)
  case None
  then show ?thesis by (simp add: invoke_def added_def called_def)
next
  case (Some c)
  then show ?thesis
    using busy_invoke [OF assms, of c a] by (simp add: added_def called_def)
qed

lemma released:
  assumes "\<not> sig s" "fs s = Some h"
  shows "\<exists>s'. andThen (invoke cb a s) (nextValue True) = Inr s' \<and>
     trace s' = trace s @ called cb a @ [Next True, Notified True] @
                drained (tasksQueue s @ added cb)"
proof -
  let ?s1 = "s\<lparr>tasksQueue := tasksQueue s @ added cb, trace := trace s @ called cb a\<rparr>"
  have "\<not> sig ?s1" "fs ?s1 = Some h" using assms by simp_all
  from nextValue_True_busy [OF this] busy_called [OF assms(1), of cb a] show ?thesis
    by (simp add: andThen_def)
qed

lemma fire_onerror_begun:
  assumes "settled s" "coherent s" "pending s = []" "\<not> sig s" "fs s \<noteq> None"
    and "case h of None \<Rightarrow> True | Some (Plain c) \<Rightarrow> True | _ \<Rightarrow> False"
  shows "\<exists>s'. fire h w a s = Inr s' \<and> settled s' \<and> coherent s' \<and> pending s' = [] \<and>
            \<not> sig s' \<and> fs s' \<noteq> None \<and> begun (trace s') = begun (trace s)"
proof -
  from fire_onerror [OF assms, of w a] obtain s' where
    s': "fire h w a s = Inr s'" "settled s'" "coherent s'" "pending s' = []" "\<not> sig s'"
    "fs s' = fs s" by blast
  have "begun (trace s') = begun (trace s)"
  proof (cases h)
    case None
    with s'(1) show ?thesis by (simp add: fire_def)
  next
    case (Some f)
    with assms(6) obtain cb where "f = Plain cb" by (cases f) simp_all
    with Some s'(1) busy_invoke [OF assms(4), of cb a] show ?thesis
      by (auto simp: fire_def)
  qed
  with s' assms(5) show ?thesis by auto
qed

lemma fire_release:
  assumes "settled s" "coherent s" "pending s = []" "\<not> sig s" "fs s \<noteq> None"
    and "case h of Some (OverwriteEnd t) \<Rightarrow> True | Some (AppendEnd t) \<Rightarrow> True | _ \<Rightarrow> False"
  shows "\<exists>s'. fire h w a s = Inr s' \<and> healthy s' \<and>
     (pending s' = [] \<or>
      (\<exists>t. pending s' = [GetFile t]) \<and>
        length (begun (trace s')) = Suc (length (begun (trace s))))"
proof -
  from assms(6) consider t where "h = Some (OverwriteEnd t)" | t where "h = Some (AppendEnd t)"
    by (auto split: option.splits handler.splits)
  then show ?thesis
  proof cases
    case 1
    let ?s2 = "truncate w (length (blob t)) s"
    have s2: "settled ?s2" "coherent ?s2" "pending ?s2 = []" "\<not> sig ?s2" "fs ?s2 \<noteq> None"
      using assms by simp_all
    have "trace ?s2 = trace s"
      by (simp add: truncate_def split: option.split)
    with release [OF s2, of "onSuccessCallback t" NoArgument] 1 show ?thesis
      by (simp add: fire_def)
  next
    case 2
    with release [OF assms(1-5), of "onSuccessCallback t" NoArgument] show ?thesis
      by (simp add: fire_def)
  qed
qed

lemma staged:
  assumes "settled s" "coherent s" "pending s = []" "\<not> sig s" "fs s \<noteq> None" "built r"
  shows "healthy (send r s) \<and> progress (send r s) = 3 * length (begun (trace s)) + stage r"
  using assms send_settles [OF assms, of]
  by (simp add: healthy_def progress_def send_def)

lemma stage_le: "stage r \<le> 2"
  by (cases r) simp_all

lemma progress_step:
  assumes "healthy s" "\<not> unserved (Resolve 0 out) s"
  shows "\<exists>s'. step (Resolve 0 out) s = Inr s' \<and> healthy s' \<and>
            (pending s' = [] \<or> Suc (progress s) \<le> progress s')"
proof (cases "pending s")
  case Nil
  with assms show ?thesis by (simp add: step_def)
next
  case (Cons r rs)
  with assms have p: "pending s = [r]" and c: "built r"
    by (auto simp: healthy_def settled_def)
  let ?s0 = "s\<lparr>pending := []\<rparr>"
  let ?B = "length (begun (trace s))"
  have s0: "settled ?s0" "coherent ?s0" "pending ?s0 = []" "\<not> sig ?s0"
    using assms p by (auto simp: healthy_def settled_def coherent_def)
  have f0: "fs ?s0 \<noteq> None" if "r \<noteq> RequestFileSystem"
    using assms p that by (auto simp: healthy_def settled_def)
  have st: "step (Resolve 0 out) s = resolve r out ?s0"
    using p by (simp add: step_def)
  have pr: "progress s = 3 * ?B + stage r"
    using p by (simp add: progress_def)
  have rel: "\<exists>s'. f = Inr s' \<and> healthy s' \<and> (pending s' = [] \<or> Suc (progress s) \<le> progress s')"
    if "\<exists>s'. f = Inr s' \<and> healthy s' \<and>
         (pending s' = [] \<or>
          (\<exists>t. pending s' = [GetFile t]) \<and> length (begun (trace s')) = Suc ?B)" for f
  proof -
    from that obtain s' where s': "f = Inr s'" "healthy s'"
      "pending s' = [] \<or> (\<exists>t. pending s' = [GetFile t]) \<and> length (begun (trace s')) = Suc ?B"
      by blast
    from s'(3) pr stage_le [of r] have "pending s' = [] \<or> Suc (progress s) \<le> progress s'"
      by (auto simp: progress_def)
    with s' show ?thesis by blast
  qed
  have stg: "\<exists>s'. Inr (send r' ?s0) = Inr s' \<and> healthy s' \<and>
         (pending s' = [] \<or> Suc (progress s) \<le> progress s')"
    if "built r'" "stage r' = Suc (stage r)" "r \<noteq> RequestFileSystem" for r'
    using staged [OF s0 f0 [OF that(3)] that(1)] that(2) pr by simp
  show ?thesis
  proof (cases r)
    case RequestFileSystem
    with assms(2) p have out: "out = Succeed"
      by (cases out) (simp_all add: unserved_def)
    let ?s1 = "?s0\<lparr>fs := Some DOMFileSystem\<rparr>"
    have s1: "settled ?s1" "coherent ?s1" "pending ?s1 = []" "\<not> sig ?s1" "fs ?s1 \<noteq> None"
      using s0 by (auto simp: settled_def coherent_def)
    have "trace ?s1 = trace s" by simp
    with release [OF s1, of None NoArgument]
    have "\<exists>s'. nextValue True ?s1 = Inr s' \<and> healthy s' \<and>
        (pending s' = [] \<or> Suc (progress s) \<le> progress s')"
      by (intro rel) (simp add: invoke_def andThen_def)
    then show ?thesis
      using st RequestFileSystem out by (simp add: resolve_def initFs_def)
  next
    case (GetFile t)
    then have f: "fs ?s0 \<noteq> None" using f0 by simp
    have pe: "\<exists>s'. processError e (onErrorCallback t) ?s0 = Inr s' \<and> healthy s' \<and>
            (pending s' = [] \<or> Suc (progress s) \<le> progress s')" for e
      unfolding processError_def
      by (rule rel) (use release [OF s0 f] in simp_all)
    show ?thesis
    proof (cases out)
      case (Fail e)
      then show ?thesis using st GetFile pe [of e] by (simp add: resolve_def)
    next
      case Succeed
      show ?thesis
      proof (cases "kind t = ReadFile")
        case True
        show ?thesis
        proof (cases "files s (name t)")
          case None
          then show ?thesis
            using st GetFile True Succeed pe [of NotFoundError] by (simp add: resolve_def)
        next
          case (Some c)
          then show ?thesis
            using st GetFile True Succeed stg [of "FileOf t"] by (simp add: resolve_def)
        qed
      next
        case False
        let ?s1 = "if files s (name t) = None then ?s0\<lparr>files := (files s)(name t \<mapsto> [])\<rparr> else ?s0"
        have s1: "settled ?s1" "coherent ?s1" "pending ?s1 = []" "\<not> sig ?s1" "fs ?s1 \<noteq> None"
          using s0 f by simp_all
        have "trace ?s1 = trace s" by simp
        with staged [OF s1, of "CreateWriter t"] pr GetFile
        have "healthy (send (CreateWriter t) ?s1) \<and>
            Suc (progress s) \<le> progress (send (CreateWriter t) ?s1)"
          by simp
        then show ?thesis using st GetFile False Succeed by (auto simp: resolve_def)
      qed
    qed
  next
    case (FileOf t)
    with assms(2) p have out: "out = Succeed"
      by (cases out) (simp_all add: unserved_def)
    with FileOf show ?thesis
      using st stg [of "ReadAsText t"] by (simp add: resolve_def)
  next
    case (ReadAsText t)
    then have f: "fs ?s0 \<noteq> None" using f0 by simp
    have "\<exists>s'. andThen (nextValue True ?s0) (invoke (onSuccessCallback t) a) = Inr s' \<and>
          healthy s' \<and> (pending s' = [] \<or> Suc (progress s) \<le> progress s')" for a
      by (rule rel) (use release_read [OF s0 f] in simp_all)
    then show ?thesis using st ReadAsText by (cases out) (simp_all add: resolve_def)
  next
    case (CreateWriter t)
    then have f: "fs ?s0 \<noteq> None" using f0 by simp
    show ?thesis
    proof (cases out)
      case Succeed
      let ?w = "\<lparr>target = name t,
                 position = (if appends t then min (fileLength (name t) ?s0) (fileLength (name t) ?s0) else 0),
                 onwriteend = Some (if appends t then AppendEnd t else OverwriteEnd t),
                 onerror = map_option Plain (onErrorCallback t)\<rparr>"
      have w: "writerCreated t ?s0 = send (WriteBlob ?w (blob t)) ?s0"
        by (simp add: writerCreated_def Let_def seek_def)
      have "built (WriteBlob ?w (blob t))"
        by (cases "onErrorCallback t") simp_all
      from stg [OF this] CreateWriter w st Succeed show ?thesis
        by (simp add: resolve_def)
    next
      case (Fail e)
      have "\<exists>s'. processError e (onErrorCallback t) ?s0 = Inr s' \<and> healthy s' \<and>
            (pending s' = [] \<or> Suc (progress s) \<le> progress s')"
        unfolding processError_def
        by (rule rel) (use release [OF s0 f] in simp_all)
      then show ?thesis using st CreateWriter Fail by (simp add: resolve_def)
    qed
  next
    case (WriteBlob w d)
    then have f: "fs ?s0 \<noteq> None" using f0 by simp
    from c WriteBlob have
      he: "case onerror w of None \<Rightarrow> True | Some (Plain c) \<Rightarrow> True | _ \<Rightarrow> False" and
      hw: "case onwriteend w of Some (OverwriteEnd t) \<Rightarrow> True | Some (AppendEnd t) \<Rightarrow> True
           | _ \<Rightarrow> False"
      by simp_all
    show ?thesis
    proof (cases out)
      case Succeed
      let ?s1 = "written w d ?s0"
      have s1: "settled ?s1" "coherent ?s1" "pending ?s1 = []" "\<not> sig ?s1" "fs ?s1 \<noteq> None"
        using s0 f by simp_all
      have t1: "trace ?s1 = trace s"
        by (simp add: written_def Let_def)
      have "\<exists>s'. fire (onwriteend w) w NoArgument ?s1 = Inr s' \<and> healthy s' \<and>
          (pending s' = [] \<or> Suc (progress s) \<le> progress s')"
        by (rule rel) (use fire_release [OF s1 hw, of w NoArgument] t1 in simp)
      then show ?thesis using st WriteBlob Succeed by (simp add: resolve_def)
    next
      case (Fail e)
      from fire_onerror_begun [OF s0 f he, of w "ErrorObject e"] obtain s1 where
        s1: "fire (onerror w) w (ErrorObject e) ?s0 = Inr s1" "settled s1" "coherent s1"
        "pending s1 = []" "\<not> sig s1" "fs s1 \<noteq> None" and
        b1: "begun (trace s1) = begun (trace ?s0)" by blast
      have "\<exists>s'. fire (onwriteend w) w NoArgument s1 = Inr s' \<and> healthy s' \<and>
          (pending s' = [] \<or> Suc (progress s) \<le> progress s')"
        by (rule rel) (use fire_release [OF s1(2-6) hw, of w NoArgument] b1 in simp)
      then show ?thesis
        using st WriteBlob Fail s1(1) by (simp add: resolve_def andThen_def)
    qed
  qed
qed

lemma healthy_call:
  assumes "healthy s"
  shows "\<exists>s'. step (Call t) s = Inr s' \<and> healthy s'"
proof -
  from assms have i: "settled s" "coherent s" by (simp_all add: healthy_def)
  from api_carries [OF i, of t] obtain s' where
    s': "api t s = Inr s'" "carries s s'" by blast
  have "pending s' \<noteq> []"
  proof (cases "sig s")
    case False
    with assms have "pending s \<noteq> []" by (auto simp: healthy_def)
    with False s'(2) show ?thesis by (simp add: carries_def)
  next
    case True
    with i obtain h where h: "fs s = Some h" "tasksQueue s = []"
      by (auto simp: settled_def)
    let ?s1 = "record_obs (Submitted t) (s\<lparr>tasksQueue := tasksQueue s @ [t]\<rparr>)"
    have q1: "tasksQueue ?s1 = t # []" and f1: "fs ?s1 = Some h"
      using h by (simp_all add: record_obs_def)
    have "api t s = deQueueTask ?s1"
      using True h by (simp add: api_eq addTaskToQueue_def Let_def getValue_def record_obs_def)
    also note deQueueTask_cons [OF q1 f1]
    finally show ?thesis
      using s'(1) by (auto simp: send_def)
  qed
  with s' show ?thesis by (auto simp: step_def healthy_def carries_def)
qed

lemma healthy_step:
  assumes "healthy s" "\<not> unserved ev s"
  shows "\<exists>s'. step ev s = Inr s' \<and> healthy s'"
proof (cases ev)
  case (Call t)
  with healthy_call [OF assms(1)] show ?thesis by simp
next
  case (Resolve i out)
  show ?thesis
  proof (cases i)
    case 0
    with Resolve progress_step [OF assms(1), of out] assms(2) show ?thesis by auto
  next
    case (Suc j)
    with assms(1) have "\<not> i < length (pending s)"
      by (auto simp: healthy_def settled_def)
    with Resolve assms(1) show ?thesis by (simp add: step_def)
  qed
qed

lemma healthy_run:
  assumes "healthy s" "served evs s"
  shows "\<exists>s'. run evs s = Inr s' \<and> healthy s'"
  using assms
proof (induction evs arbitrary: s)
  case Nil
  then show ?case by simp
next
  case (Cons ev evs)
  from Cons.prems have u: "\<not> unserved ev s" by simp
  from healthy_step [OF Cons.prems(1) u] obtain s1 where
    s1: "step ev s = Inr s1" "healthy s1" by blast
  with Cons.prems(2) have "served evs s1" by simp
  from Cons.IH [OF s1(2) this] s1(1) show ?case by (simp add: andThen_def)
qed

lemma served_append:
  "served (evs @ evs') s =
     (served evs s \<and> (case run evs s of Inl x \<Rightarrow> True | Inr s' \<Rightarrow> served evs' s'))"
  by (induction evs arbitrary: s) (auto simp: andThen_def split: sum.splits)

lemma progress_run:
  assumes "healthy s" "served (map (Resolve 0) outs) s"
  shows "\<exists>s'. run (map (Resolve 0) outs) s = Inr s' \<and> healthy s' \<and>
            (pending s' = [] \<or> progress s + length outs \<le> progress s')"
  using assms
proof (induction outs arbitrary: s)
  case Nil
  then show ?case by simp
next
  case (Cons out outs)
  from Cons.prems have u: "\<not> unserved (Resolve 0 out) s" by simp
  from progress_step [OF Cons.prems(1) u] obtain s1 where
    s1: "step (Resolve 0 out) s = Inr s1" "healthy s1"
    "pending s1 = [] \<or> Suc (progress s) \<le> progress s1" by blast
  with Cons.prems(2) have "served (map (Resolve 0) outs) s1" by simp
  from Cons.IH [OF s1(2) this] obtain s' where
    s': "run (map (Resolve 0) outs) s1 = Inr s'" "healthy s'"
    "pending s' = [] \<or> progress s1 + length outs \<le> progress s'" by blast
  show ?case
  proof (cases "pending s1 = []")
    case True
    have idle: "run (map (Resolve 0) os) s1 = Inr s1" for os
      using True by (induction os) (simp_all add: step_def andThen_def)
    with s' have "s' = s1" by simp
    with True s1 s' show ?thesis by (auto simp: andThen_def)
  next
    case False
    with s1(3) s'(3) have "pending s' = [] \<or> progress s + length (out # outs) \<le> progress s'"
      by auto
    with s1 s' show ?thesis by (auto simp: andThen_def)
  qed
qed

lemma begin_all:
  assumes "healthy s" "served (map (Resolve 0) outs) s"
    and "3 * length (submitted (trace s)) \<le> length outs"
  shows "\<exists>s'. run (map (Resolve 0) outs) s = Inr s' \<and>
            prefix (submitted (trace s)) (begun (trace s'))"
proof -
  from progress_run [OF assms(1,2)] obtain s' where
    s': "run (map (Resolve 0) outs) s = Inr s'" "healthy s'"
    "pending s' = [] \<or> progress s + length outs \<le> progress s'" by blast
  from run_trace [OF s'(1)] obtain l where l: "trace s' = trace s @ l" by blast
  from s'(2) have "begun (trace s') @ tasksQueue s' = submitted (trace s')"
    by (simp add: healthy_def coherent_def)
  with l have bq: "begun (trace s') @ tasksQueue s' = submitted (trace s) @ submitted l"
    by simp
  have "length (submitted (trace s)) \<le> length (begun (trace s'))"
  proof (cases "pending s' = []")
    case True
    with s'(2) have "tasksQueue s' = []" by (auto simp: healthy_def settled_def)
    with bq show ?thesis by (metis append_Nil2 length_append le_add1)
  next
    case False
    with s'(3) have "progress s + length outs \<le> progress s'" by simp
    moreover have "progress s' \<le> 3 * length (begun (trace s')) + 2"
      using stage_le by (auto simp: progress_def split: list.split)
    ultimately show ?thesis using assms(3) by auto
  qed
  with bq have "prefix (submitted (trace s)) (begun (trace s'))"
    by (metis append_eq_append_conv_if prefix_def append_take_drop_id)
  with s'(1) show ?thesis by blast
qed

lemma constructor_healthy:
  "\<exists>s. constructor eq disk = Inr s \<and> healthy s"
  by (auto simp: constructor_def subscriber_False send_def record_obs_def settled_def
      coherent_def flight_def healthy_def)

lemma attended_healthy:
  assumes "attended eq disk evs"
  shows "\<exists>s. execute eq disk evs = Inr s \<and> healthy s"
proof -
  from constructor_healthy [of eq disk] obtain c where
    c: "constructor eq disk = Inr c" "healthy c" by blast
  with assms have "served evs c" by (simp add: attended_def)
  from healthy_run [OF c(2) this] c(1) show ?thesis
    by (simp add: execute_def andThen_def)
qed

lemma attended_append:
  assumes "attended eq disk (evs @ evs')" "execute eq disk evs = Inr s"
  shows "attended eq disk evs \<and> served evs' s"
proof -
  from constructor_healthy [of eq disk] obtain c where
    c: "constructor eq disk = Inr c" by blast
  with assms(2) have "run evs c = Inr s" by (simp add: execute_def andThen_def)
  with assms(1) c show ?thesis by (simp add: attended_def served_append)
qed

text \<open>Completions that all succeed are served, from every reachable state.\<close>

lemma served_succeed:
  assumes "settled s" "coherent s"
  shows "served (replicate k (Resolve 0 Succeed)) s"
  using assms
proof (induction k arbitrary: s)
  case 0
  then show ?case by simp
next
  case (Suc k)
  from step_settles [OF Suc.prems, of "Resolve 0 Succeed"] obtain s' where
    "step (Resolve 0 Succeed) s = Inr s'" "settled s'" "coherent s'" by blast
  with Suc.IH [of s'] show ?case by (simp add: unserved_def)
qed





text \<open>The equations that evaluate a run on concrete events.\<close>

lemmas evaluation =
  execute_def constructor_def andThen_def step_def api_eq addTaskToQueue_def
  deQueueTask.simps nextValue.simps subscriber.simps runTask_def send_def record_obs_def
  resolve_def initFs_def processError_def invoke_def fire_def writerCreated_def getValue_def
  Let_def truncate_def written_def seek_def fileLength_def blob_def appends_def

text \<open>
  An overwrite leaves the new content alone whatever the file held before: the blob is
  written from position 0 and the file is cut to the blob's size.
\<close>

lemma overwrite_any_disk:
  "\<exists>s. execute eq disk
         [Resolve 0 Succeed,
          Call (Task (WriteFile ''A'') ''d.txt'' None None),
          Resolve 0 Succeed, Resolve 0 Succeed, Resolve 0 Succeed] = Inr s \<and>
       files s ''d.txt'' = Some ''A''"
  by (cases "disk ''d.txt''") (simp_all add: evaluation)

section \<open>The claims\<close>

text \<open>
  C1. No stall on error. While a task is in progress (signal false, handle there), an
  error that is delivered to the task's error continuation releases the queue in the same
  step: the failure of \<^verbatim>\<open>getFile\<close> or of \<^verbatim>\<open>createWriter\<close>, and a read of a file that
  is not there, go through \<open>processError\<close>, which invokes the error continuation and then
  calls \<^verbatim>\<open>next(true)\<close>; the subscriber then dequeues and begins the next queued task.
  When the write itself fails, the slot \<^verbatim>\<open>onerror\<close> holds the bare error continuation
  (line 93, line 131), which is invoked, and the function in \<^verbatim>\<open>onwriteend\<close> runs after
  it: it invokes the success continuation and calls \<^verbatim>\<open>next(true)\<close>, and the next
  queued task begins.
\<close>

theorem error_releases_queue:
  assumes "\<not> sig s" "fs s = Some h"
  shows
    "(pending s = [GetFile t] \<or> pending s = [CreateWriter t] \<longrightarrow>
        (\<exists>s'. step (Resolve 0 (Fail e)) s = Inr s' \<and>
           trace s' = trace s @ called (onErrorCallback t) (ErrorObject e) @
                      [Next True, Notified True] @
                      drained (tasksQueue s @ added (onErrorCallback t)))) \<and>
     (pending s = [GetFile t] \<and> kind t = ReadFile \<and> files s (name t) = None \<longrightarrow>
        (\<exists>s'. step (Resolve 0 Succeed) s = Inr s' \<and>
           trace s' = trace s @ called (onErrorCallback t) (ErrorObject NotFoundError) @
                      [Next True, Notified True] @
                      drained (tasksQueue s @ added (onErrorCallback t)))) \<and>
     (pending s = [CreateWriter t] \<longrightarrow>
        (\<exists>s'. run [Resolve 0 Succeed, Resolve 0 (Fail e)] s = Inr s' \<and>
           trace s' = trace s @ called (onErrorCallback t) (ErrorObject e) @
                      called (onSuccessCallback t) NoArgument @
                      [Next True, Notified True] @
                      drained (tasksQueue s @ added (onErrorCallback t) @
                               added (onSuccessCallback t))))"
proof (intro conjI impI)
  let ?s0 = "s\<lparr>pending := []\<rparr>"
  have s0: "\<not> sig ?s0" "fs ?s0 = Some h" using assms by simp_all
  note pe = released [OF s0, of "onErrorCallback t"]
  {
    assume "pending s = [GetFile t] \<or> pending s = [CreateWriter t]"
    then have "step (Resolve 0 (Fail e)) s = processError e (onErrorCallback t) ?s0"
      by (auto simp: step_def resolve_def)
    with pe [of "ErrorObject e"]
    show "\<exists>s'. step (Resolve 0 (Fail e)) s = Inr s' \<and>
           trace s' = trace s @ called (onErrorCallback t) (ErrorObject e) @
                      [Next True, Notified True] @
                      drained (tasksQueue s @ added (onErrorCallback t))"
      by (simp add: processError_def)
  }
  {
    assume "pending s = [GetFile t] \<and> kind t = ReadFile \<and> files s (name t) = None"
    then have "step (Resolve 0 Succeed) s = processError NotFoundError (onErrorCallback t) ?s0"
      by (simp add: step_def resolve_def)
    with pe [of "ErrorObject NotFoundError"]
    show "\<exists>s'. step (Resolve 0 Succeed) s = Inr s' \<and>
           trace s' = trace s @ called (onErrorCallback t) (ErrorObject NotFoundError) @
                      [Next True, Notified True] @
                      drained (tasksQueue s @ added (onErrorCallback t))"
      by (simp add: processError_def)
  }
  {
    assume p: "pending s = [CreateWriter t]"
    let ?w = "\<lparr>target = name t,
               position = (if appends t then (case files s (name t) of None \<Rightarrow> 0 | Some c \<Rightarrow> length c) else 0),
               onwriteend = Some (if appends t then AppendEnd t else OverwriteEnd t),
               onerror = map_option Plain (onErrorCallback t)\<rparr>"
    let ?s1 = "s\<lparr>pending := [WriteBlob ?w (blob t)]\<rparr>"
    have st1: "step (Resolve 0 Succeed) s = Inr ?s1"
      using p
      by (simp add: step_def resolve_def writerCreated_def Let_def send_def seek_def
          fileLength_def)
    let ?s2 = "?s0\<lparr>tasksQueue := tasksQueue ?s0 @ added (onErrorCallback t),
                  trace := trace ?s0 @ called (onErrorCallback t) (ErrorObject e)\<rparr>"
    have er: "fire (onerror ?w) ?w (ErrorObject e) ?s0 = Inr ?s2"
      using busy_called [OF s0(1), of "onErrorCallback t" "ErrorObject e"]
      by (cases "onErrorCallback t") (simp_all add: fire_def added_def called_def)
    let ?s3 = "if appends t then ?s2 else truncate ?w (length (blob t)) ?s2"
    have s3: "\<not> sig ?s3" "fs ?s3 = Some h"
      using assms by simp_all
    have q3: "tasksQueue ?s3 = tasksQueue ?s2" "trace ?s3 = trace ?s2"
      by (simp_all add: truncate_def split: option.split)
    have en: "fire (onwriteend ?w) ?w NoArgument ?s2 =
        andThen (invoke (onSuccessCallback t) NoArgument ?s3) (nextValue True)"
      by (simp add: fire_def)
    have st2: "step (Resolve 0 (Fail e)) ?s1 =
        andThen (invoke (onSuccessCallback t) NoArgument ?s3) (nextValue True)"
      using er en by (simp add: step_def resolve_def andThen_def)
    from released [OF s3, of "onSuccessCallback t" NoArgument] st1 st2 q3
    show "\<exists>s'. run [Resolve 0 Succeed, Resolve 0 (Fail e)] s = Inr s' \<and>
           trace s' = trace s @ called (onErrorCallback t) (ErrorObject e) @
                      called (onSuccessCallback t) NoArgument @
                      [Next True, Notified True] @
                      drained (tasksQueue s @ added (onErrorCallback t) @
                               added (onSuccessCallback t))"
      by (auto simp: andThen_def)
  }
qed

theorem error_releases_queue_witness:
  "\<not> sig fetching \<and> fs fetching = Some DOMFileSystem \<and>
   pending fetching = [GetFile sampleWrite] \<and> tasksQueue fetching = [sampleFetch] \<and>
   (\<exists>s'. step (Resolve 0 (Fail (OtherError ''quota''))) fetching = Inr s' \<and>
      trace s' = trace fetching @ [Invoked 2 (ErrorObject (OtherError ''quota'')),
                 Next True, Notified True, Dequeued sampleFetch, Next False, Notified False,
                 Begin sampleFetch]) \<and>
   \<not> sig seeking \<and> fs seeking = Some DOMFileSystem \<and>
   pending seeking = [GetFile sampleFetch] \<and> kind sampleFetch = ReadFile \<and>
   files seeking (name sampleFetch) = None \<and> tasksQueue seeking = [sampleWrite] \<and>
   (\<exists>s'. step (Resolve 0 Succeed) seeking = Inr s' \<and>
      trace s' = trace seeking @ [Invoked 6 (ErrorObject NotFoundError),
                 Next True, Notified True, Dequeued sampleWrite, Next False, Notified False,
                 Begin sampleWrite]) \<and>
   \<not> sig creating \<and> fs creating = Some DOMFileSystem \<and>
   pending creating = [CreateWriter sampleWrite] \<and> tasksQueue creating = [sampleFetch] \<and>
   (\<exists>s'. run [Resolve 0 Succeed, Resolve 0 (Fail (OtherError ''quota''))] creating = Inr s' \<and>
      trace s' = trace creating @ [Invoked 2 (ErrorObject (OtherError ''quota'')),
                 Invoked 1 NoArgument,
                 Next True, Notified True, Dequeued sampleFetch, Next False, Notified False,
                 Begin sampleFetch])"
proof -
  have f: "\<not> sig fetching" "fs fetching = Some DOMFileSystem"
    "pending fetching = [GetFile sampleWrite]" "tasksQueue fetching = [sampleFetch]"
    by (simp_all add: fetching_def evaluation sampleWrite_def sampleFetch_def)
  have k: "\<not> sig seeking" "fs seeking = Some DOMFileSystem"
    "pending seeking = [GetFile sampleFetch]" "kind sampleFetch = ReadFile"
    "files seeking (name sampleFetch) = None" "tasksQueue seeking = [sampleWrite]"
    by (simp_all add: seeking_def evaluation sampleWrite_def sampleFetch_def)
  have c: "\<not> sig creating" "fs creating = Some DOMFileSystem"
    "pending creating = [CreateWriter sampleWrite]" "tasksQueue creating = [sampleFetch]"
    by (simp_all add: creating_def evaluation sampleWrite_def sampleFetch_def)
  have cb: "onErrorCallback sampleWrite = Some (Callback 2 [])"
    "onSuccessCallback sampleWrite = Some (Callback 1 [])"
    "onErrorCallback sampleFetch = Some (Callback 6 [])"
    by (simp_all add: sampleWrite_def sampleFetch_def)
  from error_releases_queue [OF f(1,2), of sampleWrite "OtherError ''quota''"]
    error_releases_queue [OF k(1,2), of sampleFetch]
    error_releases_queue [OF c(1,2), of sampleWrite "OtherError ''quota''"]
    f k c cb
  show ?thesis
    by (simp add: called_def added_def drained_def)
qed

text \<open>
  C2. Strict FIFO. In every run the tasks whose bodies have begun, in the order they
  began, followed by the tasks still queued, are exactly the tasks submitted, in the order
  of submission; the tasks that callers submitted appear among them in the order of the
  calls; every task dequeued has begun; and no task is left queued while the signal is
  true. Every task submitted does begin: when the backend goes on to complete three
  requests for each task submitted so far, whatever the outcomes, and no failure hits a
  request that has no error function, the tasks begun start with all of those tasks, in
  the order of submission. This holds whether the tasks were submitted before or after
  the backend became ready, and for both notification policies of the subject.
\<close>

theorem fifo_order:
  "\<exists>s. execute eq disk evs = Inr s \<and>
       begun (trace s) @ tasksQueue s = submitted (trace s) \<and>
       subseq (calls evs) (submitted (trace s)) \<and>
       dequeued (trace s) = begun (trace s) \<and>
       (sig s \<longrightarrow> tasksQueue s = []) \<and>
       (attended eq disk (evs @ map (Resolve 0) outs) \<and>
        3 * length (submitted (trace s)) \<le> length outs \<longrightarrow>
          (\<exists>s'. execute eq disk (evs @ map (Resolve 0) outs) = Inr s' \<and>
                prefix (submitted (trace s)) (begun (trace s'))))"
proof -
  from execute_settles [of eq disk evs] obtain s where
    s: "execute eq disk evs = Inr s" "settled s" "coherent s" by blast
  from constructor_settles [of eq disk] obtain s0 where
    s0: "constructor eq disk = Inr s0" by blast
  with s(1) have "run evs s0 = Inr s" by (simp add: execute_def andThen_def)
  from run_trace [OF this] obtain l where
    "trace s = trace s0 @ l" "subseq (calls evs) (submitted l)" by blast
  then have sub: "subseq (calls evs) (submitted (trace s))"
    by (simp add: list_emb_append2)
  have live: "\<exists>s'. execute eq disk (evs @ map (Resolve 0) outs) = Inr s' \<and>
        prefix (submitted (trace s)) (begun (trace s'))"
    if a: "attended eq disk (evs @ map (Resolve 0) outs)"
      and n: "3 * length (submitted (trace s)) \<le> length outs"
  proof -
    from attended_append [OF a s(1)] have
      at: "attended eq disk evs" and sv: "served (map (Resolve 0) outs) s" by simp_all
    from attended_healthy [OF at] s(1) have "healthy s" by simp
    from begin_all [OF this sv n] s(1) show ?thesis
      by (simp add: execute_append andThen_def)
  qed
  from s sub live show ?thesis
    by (auto simp: coherent_def settled_def)
qed

theorem fifo_order_witness:
  "attended False Map.empty
     ([Call sampleWrite, Resolve 0 Succeed, Call sampleFetch] @
      map (Resolve 0)
        [Succeed, Succeed, Fail (OtherError ''quota''), Succeed, Succeed, Succeed]) \<and>
   (\<exists>s s'. execute False Map.empty [Call sampleWrite, Resolve 0 Succeed, Call sampleFetch] = Inr s \<and>
      submitted (trace s) = [sampleWrite, sampleFetch] \<and>
      begun (trace s) = [sampleWrite] \<and> tasksQueue s = [sampleFetch] \<and>
      dequeued (trace s) = begun (trace s) \<and>
      3 * length (submitted (trace s)) \<le>
        length [Succeed, Succeed, Fail (OtherError ''quota''), Succeed, Succeed, Succeed] \<and>
      execute False Map.empty
        ([Call sampleWrite, Resolve 0 Succeed, Call sampleFetch] @
         map (Resolve 0)
           [Succeed, Succeed, Fail (OtherError ''quota''), Succeed, Succeed, Succeed]) = Inr s' \<and>
      prefix (submitted (trace s)) (begun (trace s')) \<and>
      begun (trace s') = [sampleWrite, sampleFetch] \<and>
      sig s' \<and> tasksQueue s' = [])"
proof -
  let ?evs = "[Call sampleWrite, Resolve 0 Succeed, Call sampleFetch]"
  let ?outs = "[Succeed, Succeed, Fail (OtherError ''quota''), Succeed, Succeed, Succeed]"
  have a: "attended False Map.empty (?evs @ map (Resolve 0) ?outs)"
    by (simp add: attended_def unserved_def evaluation sampleWrite_def sampleFetch_def)
  have e: "\<exists>s. execute False Map.empty ?evs = Inr s \<and>
      submitted (trace s) = [sampleWrite, sampleFetch] \<and>
      begun (trace s) = [sampleWrite] \<and> tasksQueue s = [sampleFetch]"
    by (simp add: evaluation sampleWrite_def sampleFetch_def)
  have e': "\<exists>s'. execute False Map.empty (?evs @ map (Resolve 0) ?outs) = Inr s' \<and>
      begun (trace s') = [sampleWrite, sampleFetch] \<and> sig s' \<and> tasksQueue s' = []"
    by (simp add: evaluation sampleWrite_def sampleFetch_def)
  from a e e' fifo_order [of False Map.empty ?evs ?outs]
  show ?thesis by fastforce
qed

text \<open>
  C3. Single flight: in every reachable state at most one backend request is
  outstanding, so at most one task is executing; the signal is false while a request is
  outstanding; and the history passes the check \<open>flight\<close>: a task is dequeued
  and begun only when no task has begun since the signal was last set to true, and it
  begins with the signal false.
\<close>

theorem single_flight:
  "\<exists>s busy. execute eq disk evs = Inr s \<and>
       length (pending s) \<le> 1 \<and>
       (pending s \<noteq> [] \<longrightarrow> \<not> sig s) \<and>
       flight (trace s) = Some (sig s, busy)"
  using execute_settles [of eq disk evs]
  by (auto simp: settled_def coherent_def)

theorem single_flight_witness:
  "\<exists>s busy.
     execute False Map.empty
       [Resolve 0 Succeed,
        Call (Task (WriteFile ''hello'') ''a.txt'' (Some (Callback 1 [])) None)] = Inr s \<and>
     length (pending s) \<le> 1 \<and> pending s \<noteq> [] \<and> \<not> sig s \<and>
     flight (trace s) = Some (sig s, busy)"
proof -
  let ?evs = "[Resolve 0 Succeed,
               Call (Task (WriteFile ''hello'') ''a.txt'' (Some (Callback 1 [])) None)]"
  from single_flight [of False Map.empty ?evs]
  obtain s busy where s: "execute False Map.empty ?evs = Inr s"
    "length (pending s) \<le> 1" "pending s \<noteq> [] \<longrightarrow> \<not> sig s"
    "flight (trace s) = Some (sig s, busy)" by blast
  have "\<exists>s'. execute False Map.empty ?evs = Inr s' \<and> pending s' \<noteq> []"
    by (simp add: evaluation)
  with s show ?thesis by auto
qed
text \<open>
  C4. No double drain: in every run nothing faults (so \<open>deQueueTask\<close> never runs on an
  empty queue, where \<^verbatim>\<open>callback()\<close> throws), and the tasks dequeued, in order,
  followed by the queue are exactly the tasks submitted: none is dequeued twice and none
  is skipped. The two places that can start a drain do nothing else when they must not:
  the subscriber notified of \<^verbatim>\<open>false\<close>, or with an empty queue, only returns, and a
  submission while the signal is false (a task is in progress) only appends.
\<close>

theorem no_double_drain:
  "(\<exists>s. execute eq disk evs = Inr s \<and>
        dequeued (trace s) @ tasksQueue s = submitted (trace s)) \<and>
   (\<not> v \<or> tasksQueue s0 = [] \<longrightarrow> subscriber v s0 = Inr (record_obs (Notified v) s0)) \<and>
   (\<not> sig s0 \<longrightarrow>
      addTaskToQueue t s0 =
        Inr (record_obs (Submitted t) (s0\<lparr>tasksQueue := tasksQueue s0 @ [t]\<rparr>))) \<and>
   (tasksQueue s0 = [] \<longrightarrow> deQueueTask s0 = Inl TypeError)"
proof -
  have "\<exists>s. execute eq disk evs = Inr s \<and>
        dequeued (trace s) @ tasksQueue s = submitted (trace s)"
    using execute_settles [of eq disk evs] by (auto simp: coherent_def)
  moreover have "\<not> v \<or> tasksQueue s0 = [] \<longrightarrow>
      subscriber v s0 = Inr (record_obs (Notified v) s0)"
    by (auto simp: subscriber.simps Let_def record_obs_def)
  moreover have "\<not> sig s0 \<longrightarrow>
      addTaskToQueue t s0 =
        Inr (record_obs (Submitted t) (s0\<lparr>tasksQueue := tasksQueue s0 @ [t]\<rparr>))"
    by (simp add: addTaskToQueue_def Let_def getValue_def record_obs_def)
  moreover have "tasksQueue s0 = [] \<longrightarrow> deQueueTask s0 = Inl TypeError"
    by (simp add: deQueueTask.simps nextValue_False)
  ultimately show ?thesis by blast
qed

theorem no_double_drain_witness:
  "(\<exists>s. execute False Map.empty
          [Call sampleRead, Resolve 0 Succeed, Call sampleWrite, Resolve 0 Succeed] = Inr s \<and>
        dequeued (trace s) = [sampleRead, sampleWrite] \<and>
        dequeued (trace s) @ tasksQueue s = submitted (trace s)) \<and>
   tasksQueue unready = [] \<and>
   subscriber True unready = Inr (record_obs (Notified True) unready) \<and>
   \<not> sig unready \<and>
   addTaskToQueue sampleRead unready =
     Inr (record_obs (Submitted sampleRead)
            (unready\<lparr>tasksQueue := tasksQueue unready @ [sampleRead]\<rparr>)) \<and>
   deQueueTask unready = Inl TypeError"
proof -
  let ?evs = "[Call sampleRead, Resolve 0 Succeed, Call sampleWrite, Resolve 0 Succeed]"
  have u: "tasksQueue unready = []" "\<not> sig unready"
    by (simp_all add: unready_def evaluation sampleRead_def sampleWrite_def)
  have "\<exists>s. execute False Map.empty ?evs = Inr s \<and>
      dequeued (trace s) = [sampleRead, sampleWrite]"
    by (simp add: evaluation sampleRead_def sampleWrite_def)
  with u no_double_drain [of False Map.empty ?evs True unready sampleRead]
  show ?thesis by auto
qed




text \<open>
  C6. Fast path: when the queue holds exactly one task after the append and the signal
  reads true, \<open>addTaskToQueue\<close> dequeues that task, sets the signal to false and begins
  it, in the same call and with no \<^verbatim>\<open>next(true)\<close>; under any other condition it only
  appends the task.
\<close>

theorem fast_path:
  "(length (tasksQueue s @ [t]) = 1 \<and> sig s \<and> fs s = Some h \<longrightarrow>
      addTaskToQueue t s =
        Inr (s\<lparr>tasksProcessSubject := (tasksProcessSubject s)\<lparr>latest := False\<rparr>,
               tasksQueue := [],
               pending := pending s @ [GetFile t],
               trace := trace s @ [Submitted t, Dequeued t, Next False, Notified False, Begin t]\<rparr>)) \<and>
   (\<not> (length (tasksQueue s @ [t]) = 1 \<and> sig s) \<longrightarrow>
      addTaskToQueue t s =
        Inr (s\<lparr>tasksQueue := tasksQueue s @ [t], trace := trace s @ [Submitted t]\<rparr>))"
proof (intro conjI impI)
  assume a: "length (tasksQueue s @ [t]) = 1 \<and> sig s \<and> fs s = Some h"
  let ?s1 = "record_obs (Submitted t) (s\<lparr>tasksQueue := tasksQueue s @ [t]\<rparr>)"
  have q1: "tasksQueue ?s1 = t # []" and f1: "fs ?s1 = Some h"
    using a by (simp_all add: record_obs_def)
  have "addTaskToQueue t s = deQueueTask ?s1"
    using a by (simp add: addTaskToQueue_def Let_def getValue_def record_obs_def)
  also note deQueueTask_cons [OF q1 f1]
  finally show "addTaskToQueue t s =
        Inr (s\<lparr>tasksProcessSubject := (tasksProcessSubject s)\<lparr>latest := False\<rparr>,
               tasksQueue := [],
               pending := pending s @ [GetFile t],
               trace := trace s @ [Submitted t, Dequeued t, Next False, Notified False, Begin t]\<rparr>)"
    using a by (simp add: silenced_def Let_def record_obs_def send_def)
next
  assume "\<not> (length (tasksQueue s @ [t]) = 1 \<and> sig s)"
  then show "addTaskToQueue t s =
        Inr (s\<lparr>tasksQueue := tasksQueue s @ [t], trace := trace s @ [Submitted t]\<rparr>)"
    by (auto simp: addTaskToQueue_def Let_def getValue_def record_obs_def)
qed

theorem fast_path_witness:
  "length (tasksQueue idle @ [sampleRead]) = 1 \<and> sig idle \<and> fs idle = Some DOMFileSystem \<and>
   addTaskToQueue sampleRead idle =
     Inr (idle\<lparr>tasksProcessSubject := (tasksProcessSubject idle)\<lparr>latest := False\<rparr>,
              tasksQueue := [],
              pending := pending idle @ [GetFile sampleRead],
              trace := trace idle @
                [Submitted sampleRead, Dequeued sampleRead, Next False, Notified False,
                 Begin sampleRead]\<rparr>) \<and>
   \<not> sig writing \<and>
   addTaskToQueue sampleRead writing =
     Inr (writing\<lparr>tasksQueue := tasksQueue writing @ [sampleRead],
                 trace := trace writing @ [Submitted sampleRead]\<rparr>)"
proof -
  have i: "length (tasksQueue idle @ [sampleRead]) = 1" "sig idle" "fs idle = Some DOMFileSystem"
    by (simp_all add: idle_def evaluation sampleRead_def sampleWrite_def)
  have w: "\<not> sig writing"
    by (simp add: writing_def evaluation sampleRead_def sampleWrite_def)
  from i w fast_path [of idle sampleRead DOMFileSystem] fast_path [of writing sampleRead]
  show ?thesis by blast
qed

text \<open>
  C7. If the file system request never completes with success (it stays outstanding, or
  it fails: the constructor passes no error continuation), then after any events the
  signal is false, the handle is undefined, every task submitted is still queued, and the
  history holds nothing but the submissions: no \<^verbatim>\<open>next(true)\<close>, no task begun, no
  continuation invoked.
\<close>

theorem initialization_never_completes:
  assumes "Resolve 0 Succeed \<notin> set evs"
  shows "\<exists>s. execute eq disk evs = Inr s \<and> \<not> sig s \<and> fs s = None \<and>
             tasksQueue s = calls evs \<and>
             trace s = Notified False # map Submitted (calls evs)"
proof -
  let ?s0 = "\<lparr>fs = None, tasksProcessSubject = \<lparr>latest = False, emitsEqual = eq\<rparr>,
              tasksQueue = [], pending = [RequestFileSystem], files = disk,
              trace = [Notified False]\<rparr>"
  have c: "constructor eq disk = Inr ?s0"
    by (simp add: constructor_def subscriber_False send_def record_obs_def)
  have "\<exists>p. run evs ?s0 = Inr (?s0\<lparr>tasksQueue := tasksQueue ?s0 @ calls evs, pending := p,
                             trace := trace ?s0 @ map Submitted (calls evs)\<rparr>)"
    by (rule uninitialised_run) (use assms in simp_all)
  with c show ?thesis by (auto simp: execute_def andThen_def)
qed

theorem initialization_never_completes_witness:
  "Resolve 0 Succeed \<notin> set [Call sampleRead, Resolve 0 (Fail NotFoundError), Call sampleWrite] \<and>
   (\<exists>s. execute False Map.empty
          [Call sampleRead, Resolve 0 (Fail NotFoundError), Call sampleWrite] = Inr s \<and>
        \<not> sig s \<and> fs s = None \<and> tasksQueue s = [sampleRead, sampleWrite] \<and>
        trace s = [Notified False, Submitted sampleRead, Submitted sampleWrite])"
proof -
  let ?evs = "[Call sampleRead, Resolve 0 (Fail NotFoundError), Call sampleWrite]"
  have h: "Resolve 0 Succeed \<notin> set ?evs" by simp
  from initialization_never_completes [OF h, of False Map.empty] h
  show ?thesis by simp
qed

text \<open>
  C8. On a backend without the file, after the file system is ready: \<open>writeFile\<close> of
  \<open>A\<close>, \<open>appendToFile\<close> of \<open>B\<close> and \<open>readFile\<close>, all to \<open>d.txt\<close>, each request
  completing with success. After the write the file holds \<open>A\<close>; at the end it holds
  \<open>AB\<close>, the three tasks have begun in order, and the success continuation of the read
  has received \<open>AB\<close>.
\<close>

theorem write_append_read:
  "\<exists>s1 s. execute eq Map.empty
          [Resolve 0 Succeed,
           Call (Task (WriteFile ''A'') ''d.txt'' (Some (Callback 1 [])) (Some (Callback 2 []))),
           Call (Task (AppendToFile ''B'') ''d.txt'' (Some (Callback 3 [])) (Some (Callback 4 []))),
           Call (Task ReadFile ''d.txt'' (Some (Callback 5 [])) (Some (Callback 6 []))),
           Resolve 0 Succeed, Resolve 0 Succeed, Resolve 0 Succeed] = Inr s1 \<and>
        files s1 ''d.txt'' = Some ''A'' \<and>
        run [Resolve 0 Succeed, Resolve 0 Succeed, Resolve 0 Succeed,
             Resolve 0 Succeed, Resolve 0 Succeed, Resolve 0 Succeed] s1 = Inr s \<and>
        files s ''d.txt'' = Some ''AB'' \<and>
        invocations (trace s) = [(1, NoArgument), (3, NoArgument), (5, FileText ''AB'')] \<and>
        begun (trace s) =
          [Task (WriteFile ''A'') ''d.txt'' (Some (Callback 1 [])) (Some (Callback 2 [])),
           Task (AppendToFile ''B'') ''d.txt'' (Some (Callback 3 [])) (Some (Callback 4 [])),
           Task ReadFile ''d.txt'' (Some (Callback 5 [])) (Some (Callback 6 []))]"
  by (simp add: evaluation sampleRead_def sampleWrite_def)

text \<open>
  C10. The order of the two effects of a successful completion. When the read of a task
  completes, the history continues with \<^verbatim>\<open>next(true)\<close>, the notification, the drain of
  the next queued task if there is one, and only then the invocation of the read's success
  continuation. When the writer of a \<open>writeFile\<close> or \<open>appendToFile\<close> task is created and
  its write completes, the history continues with the invocation of the success
  continuation (and what it submits), and only then \<^verbatim>\<open>next(true)\<close> and the drain.
\<close>

theorem completion_order:
  assumes "\<not> sig s" "fs s = Some h" "onSuccessCallback t = Some cb"
  shows
    "(pending s = [ReadAsText t] \<longrightarrow>
        (\<exists>s' text l. step (Resolve 0 Succeed) s = Inr s' \<and>
           trace s' = trace s @ [Next True, Notified True] @ drained (tasksQueue s) @
                      Invoked (label cb) (FileText text) # l)) \<and>
     (pending s = [CreateWriter t] \<longrightarrow>
        (\<exists>s'. run [Resolve 0 Succeed, Resolve 0 Succeed] s = Inr s' \<and>
           trace s' = trace s @ Invoked (label cb) NoArgument # map Submitted (submits cb) @
                      [Next True, Notified True] @ drained (tasksQueue s @ submits cb)))"
proof (intro conjI impI)
  assume p: "pending s = [ReadAsText t]"
  let ?s0 = "s\<lparr>pending := []\<rparr>"
  let ?text = "case files s (name t) of None \<Rightarrow> [] | Some c \<Rightarrow> c"
  have st: "step (Resolve 0 Succeed) s =
      andThen (nextValue True ?s0) (invoke (Some cb) (FileText ?text))"
    using p assms by (simp add: step_def resolve_def)
  have n: "nextValue True ?s0 =
     Inr (?s0\<lparr>tasksProcessSubject := (tasksProcessSubject ?s0)\<lparr>latest := (tasksQueue ?s0 = [])\<rparr>,
            tasksQueue := tl (tasksQueue ?s0),
            pending := pending ?s0 @ (case tasksQueue ?s0 of [] \<Rightarrow> [] | t # rest \<Rightarrow> [GetFile t]),
            trace := trace ?s0 @ [Next True, Notified True] @ drained (tasksQueue ?s0)\<rparr>)"
    (is "_ = Inr ?s1")
    by (rule nextValue_True_busy) (use assms in simp_all)
  show "\<exists>s' text l. step (Resolve 0 Succeed) s = Inr s' \<and>
           trace s' = trace s @ [Next True, Notified True] @ drained (tasksQueue s) @
                      Invoked (label cb) (FileText text) # l"
  proof (cases "tasksQueue s = []")
    case False
    then have "\<not> sig ?s1" by simp
    from busy_invoke [OF this, of cb "FileText ?text"] st n show ?thesis
      by (simp add: andThen_def)
  next
    case True
    let ?s2 = "record_obs (Invoked (label cb) (FileText ?text)) ?s1"
    have "\<exists>s' l. api_all (submits cb) ?s2 = Inr s' \<and> trace s' = trace ?s2 @ l"
      by (rule idle_api_all [where h = h]) (use True assms in \<open>simp_all add: record_obs_def\<close>)
    then show ?thesis
      using st n True by (auto simp: andThen_def invoke_def record_obs_def)
  qed
next
  assume p: "pending s = [CreateWriter t]"
  let ?w = "\<lparr>target = name t,
             position = (if appends t then (case files s (name t) of None \<Rightarrow> 0 | Some c \<Rightarrow> length c) else 0),
             onwriteend = Some (if appends t then AppendEnd t else OverwriteEnd t),
             onerror = map_option Plain (onErrorCallback t)\<rparr>"
  let ?s1 = "s\<lparr>pending := [WriteBlob ?w (blob t)]\<rparr>"
  have st1: "step (Resolve 0 Succeed) s = Inr ?s1"
    using p
    by (simp add: step_def resolve_def writerCreated_def Let_def send_def seek_def
        fileLength_def)
  let ?s2 = "written ?w (blob t) (s\<lparr>pending := []\<rparr>)"
  let ?s3 = "if appends t then ?s2 else truncate ?w (length (blob t)) ?s2"
  have st2: "step (Resolve 0 Succeed) ?s1 =
      andThen (invoke (Some cb) NoArgument ?s3) (nextValue True)"
    using assms by (simp add: step_def resolve_def fire_def)
  have ns: "\<not> sig ?s3" and f3: "fs ?s3 = Some h"
    using assms by simp_all
  have q3: "tasksQueue ?s3 = tasksQueue s" "trace ?s3 = trace s"
    by (simp_all add: written_def truncate_def Let_def split: option.split)
  let ?s4 = "?s3\<lparr>tasksQueue := tasksQueue ?s3 @ submits cb,
              trace := trace ?s3 @ Invoked (label cb) NoArgument # map Submitted (submits cb)\<rparr>"
  have i: "invoke (Some cb) NoArgument ?s3 = Inr ?s4"
    by (rule busy_invoke [OF ns])
  have "\<exists>s'. nextValue True ?s4 = Inr s' \<and>
      trace s' = trace ?s4 @ [Next True, Notified True] @ drained (tasksQueue ?s4)"
    using nextValue_True_busy [of ?s4 h] ns f3 by simp
  then show "\<exists>s'. run [Resolve 0 Succeed, Resolve 0 Succeed] s = Inr s' \<and>
           trace s' = trace s @ Invoked (label cb) NoArgument # map Submitted (submits cb) @
                      [Next True, Notified True] @ drained (tasksQueue s @ submits cb)"
    using st1 st2 i q3 by (auto simp: andThen_def)
qed

theorem completion_order_witness:
  "\<not> sig reading \<and> fs reading = Some DOMFileSystem \<and>
   onSuccessCallback sampleRead = Some (Callback 3 [sampleWrite]) \<and>
   pending reading = [ReadAsText sampleRead] \<and>
   (\<exists>s' text l. step (Resolve 0 Succeed) reading = Inr s' \<and>
      trace s' = trace reading @ [Next True, Notified True] @ drained (tasksQueue reading) @
                 Invoked (label (Callback 3 [sampleWrite])) (FileText text) # l) \<and>
   \<not> sig writing \<and> fs writing = Some DOMFileSystem \<and>
   onSuccessCallback sampleWrite = Some (Callback 1 []) \<and>
   pending writing = [CreateWriter sampleWrite] \<and>
   (\<exists>s'. run [Resolve 0 Succeed, Resolve 0 Succeed] writing = Inr s' \<and>
      trace s' = trace writing @ Invoked (label (Callback 1 [])) NoArgument #
                 map Submitted (submits (Callback 1 [])) @
                 [Next True, Notified True] @ drained (tasksQueue writing @ submits (Callback 1 [])))"
proof -
  have r: "\<not> sig reading" "fs reading = Some DOMFileSystem"
    "onSuccessCallback sampleRead = Some (Callback 3 [sampleWrite])"
    "pending reading = [ReadAsText sampleRead]"
    by (simp_all add: reading_def evaluation sampleRead_def sampleWrite_def)
  have w: "\<not> sig writing" "fs writing = Some DOMFileSystem"
    "onSuccessCallback sampleWrite = Some (Callback 1 [])"
    "pending writing = [CreateWriter sampleWrite]"
    by (simp_all add: writing_def evaluation sampleRead_def sampleWrite_def)
  from r w completion_order [OF r(1-3)] completion_order [OF w(1-3)]
  show ?thesis by blast
qed



end
